theory Spec2Isabelle
  imports Main "HOL-Library.AList" "HOL-Library.Multiset"
begin

section \<open>The crossword model\<close>

text \<open>
  The solver of \<^verbatim>\<open>3 Optimization/crossword/generate.py\<close> works on a parsed
  crossword: slots (\<^verbatim>\<open>Variable\<close>), a vocabulary and the overlap table.
  Python exceptions that the solver's own expressions can raise are values of
  \<open>error\<close>; a method that can raise returns \<open>error + 'a\<close>.
\<close>

datatype error = IndexError | KeyError | TypeError

datatype direction = ACROSS | DOWN

text \<open>
  A slot: starting row and column, direction and number of cells. The fields are
  \<^verbatim>\<open>i\<close>, \<^verbatim>\<open>j\<close>, \<^verbatim>\<open>direction\<close> and \<^verbatim>\<open>length\<close> in the source; equality is
  by value.
\<close>

record Variable =
  var_i :: nat
  var_j :: nat
  var_direction :: direction
  var_length :: nat

text \<open>
  Modelled from the spec: the class \<^verbatim>\<open>Crossword\<close> (module \<^verbatim>\<open>crossword\<close>) is
  imported by the solver and is taken as a parameter. \<open>variables\<close> is the fixed
  set of slots in its iteration order, \<open>words\<close> the vocabulary, and
  \<open>overlaps (x, y)\<close> is \<open>None\<close> when \<open>x\<close> and \<open>y\<close> do not cross (including
  \<open>x = y\<close>) and the pair of offsets of the shared cell otherwise.
\<close>

record Crossword =
  variables :: "Variable list"
  words :: "string list"
  overlaps :: "Variable \<times> Variable \<Rightarrow> (nat \<times> nat) option"

text \<open>
  Modelled from the spec: \<^verbatim>\<open>neighbors(slot)\<close> is the set of slots overlapping
  \<open>slot\<close>, distinct from it, per the overlap relation.
\<close>

definition neighbors :: "Crossword \<Rightarrow> Variable \<Rightarrow> Variable list" where
  "neighbors cw var = [v \<leftarrow> variables cw. v \<noteq> var \<and> overlaps cw (var, v) \<noteq> None]"

text \<open>
  \<^verbatim>\<open>self.domains\<close> is a dictionary from slots to sets of words; a dictionary is an
  association list in insertion order and a set is the duplicate-free list of
  its elements in iteration order. An assignment is a dictionary from slots to
  words.
\<close>

type_synonym domains = "(Variable \<times> string list) list"
type_synonym assignment = "(Variable \<times> string) list"

text \<open>\<^verbatim>\<open>d[k]\<close> raises \<^verbatim>\<open>KeyError\<close> for a missing key.\<close>

definition getitem :: "('k \<times> 'v) list \<Rightarrow> 'k \<Rightarrow> error + 'v" where
  "getitem d k = (case map_of d k of None \<Rightarrow> Inl KeyError | Some v \<Rightarrow> Inr v)"

text \<open>\<^verbatim>\<open>w[n]\<close> on a string, for an offset \<open>n \<ge> 0\<close>.\<close>

definition str_index :: "string \<Rightarrow> nat \<Rightarrow> error + char" where
  "str_index w n = (if n < length w then Inr (w ! n) else Inl IndexError)"

text \<open>\<^verbatim>\<open>s.remove(w)\<close> for each \<open>w\<close> of a list, on a set \<open>s\<close>.\<close>

fun remove_words :: "string list \<Rightarrow> string list \<Rightarrow> error + string list" where
  "remove_words [] s = Inr s"
| "remove_words (w # ws) s =
     (if w \<in> set s then remove_words ws (remove1 w s) else Inl KeyError)"

text \<open>\<^verbatim>\<open>__init__\<close>: every slot starts with a copy of the vocabulary.\<close>

definition init_domains :: "Crossword \<Rightarrow> domains" where
  "init_domains cw = map (\<lambda>var. (var, words cw)) (variables cw)"

subsection \<open>\<^verbatim>\<open>enforce_node_consistency\<close>\<close>

fun enforce_loop :: "Variable list \<Rightarrow> domains \<Rightarrow> error + domains" where
  "enforce_loop [] d = Inr d"
| "enforce_loop (v # vs) d =
     (case getitem d v of
        Inl e \<Rightarrow> Inl e
      | Inr ws \<Rightarrow>
          (case remove_words [word \<leftarrow> ws. length word \<noteq> var_length v] ws of
             Inl e \<Rightarrow> Inl e
           | Inr ws' \<Rightarrow> enforce_loop vs (AList.update v ws' d)))"

definition enforce_node_consistency :: "domains \<Rightarrow> error + domains" where
  "enforce_node_consistency d = enforce_loop (map fst d) d"

subsection \<open>\<^verbatim>\<open>revise\<close>\<close>

text \<open>
  The inner loop over \<^verbatim>\<open>self.domains[y]\<close>: \<open>True\<close> when it leaves through
  \<^verbatim>\<open>break\<close> with \<^verbatim>\<open>ac = True\<close>.
\<close>

fun revise_inner :: "nat \<Rightarrow> nat \<Rightarrow> string \<Rightarrow> string list \<Rightarrow> error + bool" where
  "revise_inner i j word_x [] = Inr False"
| "revise_inner i j word_x (word_y # ys) =
     (case str_index word_x i of
        Inl e \<Rightarrow> Inl e
      | Inr cx \<Rightarrow>
          (case str_index word_y j of
             Inl e \<Rightarrow> Inl e
           | Inr cy \<Rightarrow>
               if cx = cy then
                 (if word_x = word_y then revise_inner i j word_x ys else Inr True)
               else revise_inner i j word_x ys))"

text \<open>The outer loop: the list \<^verbatim>\<open>remove_from_x\<close>, in the order of appending.\<close>

fun revise_outer :: "nat \<Rightarrow> nat \<Rightarrow> domains \<Rightarrow> Variable \<Rightarrow> string list \<Rightarrow> error + string list" where
  "revise_outer i j d y [] = Inr []"
| "revise_outer i j d y (word_x # xs) =
     (case getitem d y of
        Inl e \<Rightarrow> Inl e
      | Inr dy \<Rightarrow>
          (case revise_inner i j word_x dy of
             Inl e \<Rightarrow> Inl e
           | Inr ac \<Rightarrow>
               (case revise_outer i j d y xs of
                  Inl e \<Rightarrow> Inl e
                | Inr rest \<Rightarrow> Inr (if ac then rest else word_x # rest))))"

definition revise :: "Crossword \<Rightarrow> domains \<Rightarrow> Variable \<Rightarrow> Variable \<Rightarrow> error + (bool \<times> domains)" where
  "revise cw d x y =
     (case overlaps cw (x, y) of
        None \<Rightarrow> Inr (False, d)
      | Some (i, j) \<Rightarrow>
          (case getitem d x of
             Inl e \<Rightarrow> Inl e
           | Inr dx \<Rightarrow>
               (case revise_outer i j d y dx of
                  Inl e \<Rightarrow> Inl e
                | Inr remove_from_x \<Rightarrow>
                    if length remove_from_x = 0 then Inr (False, d)
                    else (case remove_words remove_from_x dx of
                            Inl e \<Rightarrow> Inl e
                          | Inr dx' \<Rightarrow> Inr (True, AList.update x dx' d)))))"

subsection \<open>\<^verbatim>\<open>ac3\<close>\<close>

text \<open>\<^verbatim>\<open>itertools.combinations(xs, 2)\<close>, in its order.\<close>

fun combinations2 :: "'a list \<Rightarrow> ('a \<times> 'a) list" where
  "combinations2 [] = []"
| "combinations2 (x # xs) = map (Pair x) xs @ combinations2 xs"

definition domain_total :: "domains \<Rightarrow> nat" where
  "domain_total d = sum_list (map (\<lambda>p. length (snd p)) d)"

lemma remove_words_length:
  "remove_words rs s = Inr s' \<Longrightarrow> length s' + length rs = length s"
proof (induction rs arbitrary: s)
  case Nil
  then show ?case by simp
next
  case (Cons r rs)
  from Cons.prems have r: "r \<in> set s" and rest: "remove_words rs (remove1 r s) = Inr s'"
    by (auto split: if_splits)
  from Cons.IH [OF rest] have "length s' + length rs = length (remove1 r s)" .
  moreover from r have "length (remove1 r s) = length s - 1" by (simp add: length_remove1)
  moreover from r have "length s > 0" by (cases s) auto
  ultimately show ?case by simp
qed

lemma domain_total_update:
  "map_of d x = Some dx \<Longrightarrow> domain_total (AList.update x dx' d) + length dx = domain_total d + length dx'"
  by (induction d) (auto simp: domain_total_def)

lemma revise_True_shrinks:
  assumes "revise cw d x y = Inr (True, d')"
  shows "domain_total d' < domain_total d"
proof -
  from assms obtain i j dx rm dx' where
    dx: "map_of d x = Some dx" and rm: "rm \<noteq> []" and
    rw: "remove_words rm dx = Inr dx'" and d': "d' = AList.update x dx' d"
    by (auto simp: revise_def getitem_def split: option.splits sum.splits if_splits)
  from remove_words_length [OF rw] rm have "length dx' < length dx"
    by (cases rm) auto
  with domain_total_update [OF dx, of dx'] d' show ?thesis by simp
qed

text \<open>The \<^verbatim>\<open>while\<close> loop of \<^verbatim>\<open>ac3\<close> over the worklist \<^verbatim>\<open>arcs\<close>.\<close>

function ac3_loop :: "Crossword \<Rightarrow> domains \<Rightarrow> (Variable \<times> Variable) list \<Rightarrow> error + (bool \<times> domains)" where
  "ac3_loop cw d [] = Inr (True, d)"
| "ac3_loop cw d (current_arc # arcs) =
     (case revise cw d (fst current_arc) (snd current_arc) of
        Inl e \<Rightarrow> Inl e
      | Inr (revised, d') \<Rightarrow>
          if revised then
            (case getitem d' (fst current_arc) of
               Inl e \<Rightarrow> Inl e
             | Inr dx \<Rightarrow>
                 if length dx = 0 then Inr (False, d')
                 else ac3_loop cw d'
                        (arcs @ map (\<lambda>neighbor. (neighbor, fst current_arc))
                                  [neighbor \<leftarrow> neighbors cw (fst current_arc). neighbor \<noteq> snd current_arc]))
          else ac3_loop cw d' arcs)"
  by pat_completeness auto

lemma revise_False_same: "revise cw d x y = Inr (False, d') \<Longrightarrow> d' = d"
  by (auto simp: revise_def split: option.splits sum.splits if_splits)

termination ac3_loop
proof (relation "inv_image (less_than <*lex*> less_than) (\<lambda>(cw, d, arcs). (domain_total d, length arcs))")
  show "wf (inv_image (less_than <*lex*> less_than) (\<lambda>(cw, d, arcs). (domain_total d, length arcs)))"
    by (intro wf_inv_image wf_lex_prod wf_less_than)
next
  fix cw d current_arc arcs x2 revised d' x2a
  assume "revise cw d (fst current_arc) (snd current_arc) = Inr x2" "(revised, d') = x2" "revised"
  then have "revise cw d (fst current_arc) (snd current_arc) = Inr (True, d')" by auto
  from revise_True_shrinks [OF this]
  show "((cw, d', arcs @ map (\<lambda>neighbor. (neighbor, fst current_arc))
                    [neighbor \<leftarrow> neighbors cw (fst current_arc). neighbor \<noteq> snd current_arc]),
         (cw, d, current_arc # arcs))
        \<in> inv_image (less_than <*lex*> less_than) (\<lambda>(cw, d, arcs). (domain_total d, length arcs))"
    by simp
next
  fix cw d current_arc arcs x2 revised d'
  assume "revise cw d (fst current_arc) (snd current_arc) = Inr x2" "(revised, d') = x2" "\<not> revised"
  then have "revise cw d (fst current_arc) (snd current_arc) = Inr (False, d')" by auto
  from revise_False_same [OF this]
  show "((cw, d', arcs), (cw, d, current_arc # arcs))
        \<in> inv_image (less_than <*lex*> less_than) (\<lambda>(cw, d, arcs). (domain_total d, length arcs))"
    by simp
qed

definition ac3 :: "Crossword \<Rightarrow> domains \<Rightarrow> (Variable \<times> Variable) list option \<Rightarrow> error + (bool \<times> domains)" where
  "ac3 cw d arcs =
     ac3_loop cw d (case arcs of None \<Rightarrow> combinations2 (map fst d) | Some given \<Rightarrow> given)"

subsection \<open>\<^verbatim>\<open>assignment_complete\<close> and \<^verbatim>\<open>consistent\<close>\<close>

definition contains :: "('k \<times> 'v) list \<Rightarrow> 'k \<Rightarrow> bool" where
  "contains d k = (map_of d k \<noteq> None)"

fun assignment_complete_loop :: "Variable list \<Rightarrow> assignment \<Rightarrow> bool" where
  "assignment_complete_loop [] a = True"
| "assignment_complete_loop (v # vs) a =
     (if \<not> contains a v then False else assignment_complete_loop vs a)"

definition assignment_complete :: "domains \<Rightarrow> assignment \<Rightarrow> bool" where
  "assignment_complete d a = assignment_complete_loop (map fst d) a"

text \<open>The first loop of \<^verbatim>\<open>consistent\<close>: word lengths and \<^verbatim>\<open>seen_words\<close>.\<close>

fun consistent_words :: "assignment \<Rightarrow> Variable list \<Rightarrow> string list \<Rightarrow> error + bool" where
  "consistent_words a [] seen_words = Inr True"
| "consistent_words a (v # vs) seen_words =
     (case getitem a v of
        Inl e \<Rightarrow> Inl e
      | Inr w \<Rightarrow>
          if length w \<noteq> var_length v then Inr False
          else if w \<in> set seen_words then Inr False
          else consistent_words a vs (w # seen_words))"

text \<open>
  The second loop, for one \<open>v\<close>, over its neighbors: \<open>False\<close> is the early
  \<^verbatim>\<open>return False\<close>, \<open>True\<close> means that the loop ran to its end.
\<close>

fun consistent_neighbors :: "Crossword \<Rightarrow> assignment \<Rightarrow> Variable \<Rightarrow> Variable list \<Rightarrow> error + bool" where
  "consistent_neighbors cw a v [] = Inr True"
| "consistent_neighbors cw a v (neighbor # ns) =
     (if \<not> contains a neighbor then consistent_neighbors cw a v ns
      else case overlaps cw (v, neighbor) of
             None \<Rightarrow> consistent_neighbors cw a v ns
           | Some (p, q) \<Rightarrow>
               (case getitem a v of
                  Inl e \<Rightarrow> Inl e
                | Inr wv \<Rightarrow>
                    (case str_index wv p of
                       Inl e \<Rightarrow> Inl e
                     | Inr cv \<Rightarrow>
                         (case getitem a neighbor of
                            Inl e \<Rightarrow> Inl e
                          | Inr wn \<Rightarrow>
                              (case str_index wn q of
                                 Inl e \<Rightarrow> Inl e
                               | Inr cn \<Rightarrow>
                                   if cv \<noteq> cn then Inr False
                                   else consistent_neighbors cw a v ns)))))"

fun consistent_overlaps :: "Crossword \<Rightarrow> assignment \<Rightarrow> Variable list \<Rightarrow> error + bool" where
  "consistent_overlaps cw a [] = Inr True"
| "consistent_overlaps cw a (v # vs) =
     (case consistent_neighbors cw a v (neighbors cw v) of
        Inl e \<Rightarrow> Inl e
      | Inr ok \<Rightarrow> if ok then consistent_overlaps cw a vs else Inr False)"

definition consistent :: "Crossword \<Rightarrow> assignment \<Rightarrow> error + bool" where
  "consistent cw a =
     (case consistent_words a (map fst a) [] of
        Inl e \<Rightarrow> Inl e
      | Inr ok \<Rightarrow> if ok then consistent_overlaps cw a (map fst a) else Inr False)"

subsection \<open>\<^verbatim>\<open>order_domain_values\<close>\<close>

text \<open>The loop over the words of one neighbor, adding to the count of \<open>word\<close>.\<close>

fun eliminations_words :: "Crossword \<Rightarrow> Variable \<Rightarrow> Variable \<Rightarrow> string \<Rightarrow> string list \<Rightarrow> nat \<Rightarrow> error + nat" where
  "eliminations_words cw var neighbor word [] n = Inr n"
| "eliminations_words cw var neighbor word (neigbor_word # ws) n =
     (if word = neigbor_word then eliminations_words cw var neighbor word ws (n + 1)
      else case overlaps cw (var, neighbor) of
             None \<Rightarrow> Inl TypeError
           | Some (p, q) \<Rightarrow>
               (case str_index word p of
                  Inl e \<Rightarrow> Inl e
                | Inr c \<Rightarrow>
                    (case str_index neigbor_word q of
                       Inl e \<Rightarrow> Inl e
                     | Inr cn \<Rightarrow>
                         eliminations_words cw var neighbor word ws (if c \<noteq> cn then n + 1 else n))))"

fun eliminations_neighbors :: "Crossword \<Rightarrow> domains \<Rightarrow> assignment \<Rightarrow> Variable \<Rightarrow> string \<Rightarrow> Variable list \<Rightarrow> nat \<Rightarrow> error + nat" where
  "eliminations_neighbors cw d a var word [] n = Inr n"
| "eliminations_neighbors cw d a var word (neighbor # ns) n =
     (if contains a neighbor then eliminations_neighbors cw d a var word ns n
      else case getitem d neighbor of
             Inl e \<Rightarrow> Inl e
           | Inr dn \<Rightarrow>
               (case eliminations_words cw var neighbor word dn n of
                  Inl e \<Rightarrow> Inl e
                | Inr n' \<Rightarrow> eliminations_neighbors cw d a var word ns n'))"

text \<open>The dictionary \<^verbatim>\<open>eliminations_per_word\<close> with its final counts, in key order.\<close>

fun eliminations_per_word :: "Crossword \<Rightarrow> domains \<Rightarrow> assignment \<Rightarrow> Variable \<Rightarrow> string list \<Rightarrow> error + (string \<times> nat) list" where
  "eliminations_per_word cw d a var [] = Inr []"
| "eliminations_per_word cw d a var (word # ws) =
     (case eliminations_neighbors cw d a var word (neighbors cw var) 0 of
        Inl e \<Rightarrow> Inl e
      | Inr n \<Rightarrow>
          (case eliminations_per_word cw d a var ws of
             Inl e \<Rightarrow> Inl e
           | Inr rest \<Rightarrow> Inr ((word, n) # rest)))"

text \<open>\<^verbatim>\<open>sorted\<close> is stable, as \<open>sort_key\<close> is.\<close>

definition order_domain_values :: "Crossword \<Rightarrow> domains \<Rightarrow> Variable \<Rightarrow> assignment \<Rightarrow> error + string list" where
  "order_domain_values cw d var a =
     (case getitem d var of
        Inl e \<Rightarrow> Inl e
      | Inr dv \<Rightarrow>
          (case eliminations_per_word cw d a var dv of
             Inl e \<Rightarrow> Inl e
           | Inr counts \<Rightarrow> Inr (map fst (sort_key snd counts))))"

subsection \<open>\<^verbatim>\<open>select_unassigned_variable\<close>\<close>

text \<open>\<^verbatim>\<open>xs[n]\<close> on a list, for an index \<open>n \<ge> 0\<close>.\<close>

definition list_index :: "'a list \<Rightarrow> nat \<Rightarrow> error + 'a" where
  "list_index xs n = (if n < length xs then Inr (xs ! n) else Inl IndexError)"

text \<open>
  The loop that finds the smallest domain size: the state is
  \<^verbatim>\<open>(min_domain_size, min_domain_indexes)\<close>, the list is
  \<^verbatim>\<open>enumerate(remaining_vars)\<close>.
\<close>

fun min_domain_loop :: "domains \<Rightarrow> (nat \<times> Variable) list \<Rightarrow> nat \<Rightarrow> nat list \<Rightarrow> error + (nat \<times> nat list)" where
  "min_domain_loop d [] min_domain_size min_domain_indexes = Inr (min_domain_size, min_domain_indexes)"
| "min_domain_loop d ((v, var) # rest) min_domain_size min_domain_indexes =
     (case getitem d var of
        Inl e \<Rightarrow> Inl e
      | Inr dv \<Rightarrow>
          if length dv < min_domain_size then min_domain_loop d rest (length dv) [v]
          else if length dv = min_domain_size then min_domain_loop d rest min_domain_size (min_domain_indexes @ [v])
          else min_domain_loop d rest min_domain_size min_domain_indexes)"

fun num_neighbors_list :: "Crossword \<Rightarrow> Variable list \<Rightarrow> nat list \<Rightarrow> error + nat list" where
  "num_neighbors_list cw remaining_vars [] = Inr []"
| "num_neighbors_list cw remaining_vars (index # rest) =
     (case list_index remaining_vars index of
        Inl e \<Rightarrow> Inl e
      | Inr var \<Rightarrow>
          (case num_neighbors_list cw remaining_vars rest of
             Inl e \<Rightarrow> Inl e
           | Inr nums \<Rightarrow> Inr (length (neighbors cw var) # nums)))"

text \<open>The loop over \<^verbatim>\<open>enumerate(num_neighbors)\<close>; the state is \<^verbatim>\<open>max_neighbors_index\<close>.\<close>

fun max_neighbors_loop :: "(nat \<times> nat) list \<Rightarrow> nat \<Rightarrow> nat" where
  "max_neighbors_loop [] max_neighbors_index = max_neighbors_index"
| "max_neighbors_loop ((i, num) # rest) max_neighbors_index =
     (if num > max_neighbors_index then max_neighbors_loop rest i
      else max_neighbors_loop rest max_neighbors_index)"

definition enumerate_list :: "'a list \<Rightarrow> (nat \<times> 'a) list" where
  "enumerate_list xs = zip [0..<length xs] xs"

definition select_unassigned_variable :: "Crossword \<Rightarrow> domains \<Rightarrow> assignment \<Rightarrow> error + Variable" where
  "select_unassigned_variable cw d a =
     (let remaining_vars = [var \<leftarrow> map fst d. \<not> contains a var] in
      case list_index remaining_vars 0 of
        Inl e \<Rightarrow> Inl e
      | Inr var0 \<Rightarrow>
          (case getitem d var0 of
             Inl e \<Rightarrow> Inl e
           | Inr d0 \<Rightarrow>
               (case min_domain_loop d (enumerate_list remaining_vars) (length d0) [0] of
                  Inl e \<Rightarrow> Inl e
                | Inr (min_domain_size, min_domain_indexes) \<Rightarrow>
                    if length min_domain_indexes = 1 then
                      (case list_index min_domain_indexes 0 of
                         Inl e \<Rightarrow> Inl e
                       | Inr index \<Rightarrow> list_index remaining_vars index)
                    else
                      (case num_neighbors_list cw remaining_vars min_domain_indexes of
                         Inl e \<Rightarrow> Inl e
                       | Inr num_neighbors \<Rightarrow>
                           (case list_index min_domain_indexes
                                   (max_neighbors_loop (enumerate_list num_neighbors) 0) of
                              Inl e \<Rightarrow> Inl e
                            | Inr index \<Rightarrow> list_index remaining_vars index)))))"

subsection \<open>\<^verbatim>\<open>backtrack\<close> and \<^verbatim>\<open>solve\<close>\<close>

text \<open>\<^verbatim>\<open>d.pop(k)\<close> raises \<^verbatim>\<open>KeyError\<close> for a missing key.\<close>

definition dict_pop :: "('k \<times> 'v) list \<Rightarrow> 'k \<Rightarrow> error + ('k \<times> 'v) list" where
  "dict_pop d k = (if contains d k then Inr (AList.delete k d) else Inl KeyError)"

text \<open>
  \<^verbatim>\<open>backtrack\<close> works on two mutable objects, \<^verbatim>\<open>self.domains\<close> and the
  dictionary \<^verbatim>\<open>assignment\<close>; both are passed in and returned. The result is
  \<open>(r, d', a', n)\<close>: the returned value \<open>r\<close> (\<open>None\<close> or the assignment), the
  domains and the contents of \<^verbatim>\<open>assignment\<close> when the call returns, and the
  number \<open>n\<close> of invocations of \<^verbatim>\<open>backtrack\<close> that the call made, itself
  included. \<open>backtrack_loop\<close> is the \<^verbatim>\<open>for\<close> loop over the ordered words.
\<close>

function backtrack :: "Crossword \<Rightarrow> domains \<Rightarrow> assignment \<Rightarrow> error + (assignment option \<times> domains \<times> assignment \<times> nat)"
  and backtrack_loop :: "Crossword \<Rightarrow> domains \<Rightarrow> Variable \<Rightarrow> string list \<Rightarrow> assignment \<Rightarrow> error + (assignment option \<times> domains \<times> assignment \<times> nat)"
  where
  "backtrack cw d a =
     (if assignment_complete d a then Inr (Some a, d, a, 1)
      else case select_unassigned_variable cw d a of
             Inl e \<Rightarrow> Inl e
           | Inr current_var \<Rightarrow>
               (case order_domain_values cw d current_var a of
                  Inl e \<Rightarrow> Inl e
                | Inr ws \<Rightarrow>
                    (case backtrack_loop cw d current_var ws a of
                       Inl e \<Rightarrow> Inl e
                     | Inr (r, d', a', n) \<Rightarrow> Inr (r, d', a', n + 1))))"
| "backtrack_loop cw d current_var [] a = Inr (None, d, a, 0)"
| "backtrack_loop cw d current_var (word # ws) a =
     (case consistent cw (AList.update current_var word a) of
        Inl e \<Rightarrow> Inl e
      | Inr ok \<Rightarrow>
          if ok then
            (case backtrack cw d (AList.update current_var word a) of
               Inl e \<Rightarrow> Inl e
             | Inr (r, d1, a1, n) \<Rightarrow>
                 if r \<noteq> None then Inr (r, d1, a1, n)
                 else (case dict_pop a1 current_var of
                         Inl e \<Rightarrow> Inl e
                       | Inr a2 \<Rightarrow>
                           (case backtrack_loop cw d1 current_var ws a2 of
                              Inl e \<Rightarrow> Inl e
                            | Inr (r', d2, a3, m) \<Rightarrow> Inr (r', d2, a3, n + m))))
          else
            (case dict_pop (AList.update current_var word a) current_var of
               Inl e \<Rightarrow> Inl e
             | Inr a2 \<Rightarrow> backtrack_loop cw d current_var ws a2))"
  by pat_completeness auto

lemma contains_iff: "contains d k \<longleftrightarrow> k \<in> fst ` set d"
  by (simp add: contains_def map_of_eq_None_iff)

lemma list_index_Inr: "list_index xs n = Inr x \<Longrightarrow> x \<in> set xs"
  by (auto simp: list_index_def split: if_splits)

lemma select_unassigned_variable_remaining:
  assumes "select_unassigned_variable cw d a = Inr v"
  shows "v \<in> fst ` set d \<and> \<not> contains a v"
proof -
  from assms have "\<exists>n. list_index [var \<leftarrow> map fst d. \<not> contains a var] n = Inr v"
    unfolding select_unassigned_variable_def Let_def
    by (auto split: sum.splits prod.splits if_splits)
  then have "v \<in> set [var \<leftarrow> map fst d. \<not> contains a var]"
    by (auto dest: list_index_Inr)
  then show ?thesis by auto
qed

lemma dict_pop_update:
  "dict_pop (AList.update k v a) k = Inr (AList.delete k a)"
  by (simp add: dict_pop_def contains_iff dom_update delete_update_same)

lemma backtrack_frame_partial:
  "backtrack_backtrack_loop_dom (Inl (cw, d, a)) \<Longrightarrow>
     backtrack cw d a = Inr (r, d', a', n) \<Longrightarrow> d' = d \<and> (r = None \<longrightarrow> a' = a)"
  "backtrack_backtrack_loop_dom (Inr (cw, d, var, ws, a)) \<Longrightarrow>
     backtrack_loop cw d var ws a = Inr (r, d', a', n) \<Longrightarrow>
     d' = d \<and> (r = None \<longrightarrow> a' = (if ws = [] then a else AList.delete var a))"
proof (induction cw d a and cw d var ws a arbitrary: r d' a' n and r d' a' n
       rule: backtrack_backtrack_loop.pinduct)
  case (1 cw d a)
  show ?case
  proof (cases "assignment_complete d a")
    case True
    with 1(1,3) show ?thesis by (simp add: backtrack.psimps)
  next
    case False
    with 1(1,3) obtain v ws m where
      sel: "select_unassigned_variable cw d a = Inr v" and
      ord: "order_domain_values cw d v a = Inr ws" and
      lp: "backtrack_loop cw d v ws a = Inr (r, d', a', m)"
      by (auto simp: backtrack.psimps split: sum.splits)
    from select_unassigned_variable_remaining [OF sel] have "v \<notin> fst ` set a"
      by (simp add: contains_iff)
    then have "AList.delete v a = a" by simp
    with 1(2) [OF False sel ord lp] show ?thesis by simp
  qed
next
  case (2 cw d current_var a)
  then show ?case by (simp add: backtrack_loop.psimps)
next
  case (3 cw d current_var word ws a)
  let ?a1 = "AList.update current_var word a"
  from 3(1,5) obtain ok where c: "consistent cw ?a1 = Inr ok"
    by (auto simp: backtrack_loop.psimps split: sum.splits)
  show ?case
  proof (cases ok)
    case True
    with 3(1,5) c obtain r1 d1 a1 n1 where
      bt: "backtrack cw d ?a1 = Inr (r1, d1, a1, n1)"
      by (auto simp: backtrack_loop.psimps split: sum.splits)
    from 3(2) [OF c True bt] have d1: "d1 = d" and a1: "r1 = None \<longrightarrow> a1 = ?a1" by auto
    show ?thesis
    proof (cases "r1 = None")
      case False
      with 3(1,5) c True bt d1 show ?thesis
        by (auto simp: backtrack_loop.psimps)
    next
      case r1: True
      with a1 have a1': "a1 = ?a1" by simp
      from 3(1,5) c True bt r1 a1' obtain m where
        lp: "backtrack_loop cw d1 current_var ws (AList.delete current_var a) = Inr (r, d', a', m)"
        by (auto simp: backtrack_loop.psimps dict_pop_update split: sum.splits)
      have pop: "dict_pop a1 current_var = Inr (AList.delete current_var a)"
        by (simp add: a1' dict_pop_update)
      from 3(3) [OF c True bt _ _ _ _ pop lp, of r1 "(d1, a1, n1)" "(a1, n1)" n1] r1
      have "d' = d1 \<and> (r = None \<longrightarrow> a' = (if ws = [] then AList.delete current_var a
                else AList.delete current_var (AList.delete current_var a)))" by simp
      with d1 show ?thesis by (simp add: delete_idem)
    qed
  next
    case False
    with 3(1,5) c have
      lp: "backtrack_loop cw d current_var ws (AList.delete current_var a) = Inr (r, d', a', n)"
      by (auto simp: backtrack_loop.psimps dict_pop_update split: sum.splits)
    have pop: "dict_pop ?a1 current_var = Inr (AList.delete current_var a)"
      by (simp add: dict_pop_update)
    from 3(4) [OF c False pop lp] show ?thesis by (simp add: delete_idem)
  qed
qed

definition unassigned :: "domains \<Rightarrow> assignment \<Rightarrow> Variable set" where
  "unassigned d a = {v \<in> fst ` set d. \<not> contains a v}"

lemma finite_unassigned [simp]: "finite (unassigned d a)"
  by (simp add: unassigned_def)

lemma unassigned_update: "unassigned d (AList.update var w a) = unassigned d a - {var}"
  by (auto simp: unassigned_def contains_iff dom_update)

lemma unassigned_delete: "unassigned d (AList.delete var a) - {var} = unassigned d a - {var}"
  by (auto simp: unassigned_def contains_def delete_conv')

lemma backtrack_dom_all: "All backtrack_backtrack_loop_dom"
proof (relation "inv_image (less_than <*lex*> less_than <*lex*> less_than)
     (\<lambda>x. case x of Inl (cw, d, a) \<Rightarrow> (card (unassigned d a), 0::nat, 0::nat)
                   | Inr (cw, d, var, ws, a) \<Rightarrow> (card (unassigned d a - {var}), 1, length ws))", goal_cases)
  case 1
  show ?case by (intro wf_inv_image wf_lex_prod wf_less_than)
next
  case (2 cw d a v ws)
  from select_unassigned_variable_remaining [OF 2(2)] have "v \<in> unassigned d a"
    by (simp add: unassigned_def)
  then have "card (unassigned d a - {v}) < card (unassigned d a)"
    by (intro card_Diff1_less) simp_all
  then show ?case by simp
next
  case (3 cw d current_var word ws a ok)
  then show ?case by (simp add: unassigned_update)
next
  case (4 cw d current_var word ws a ok x2a r y d1 ya a1 n a2)
  then have bt: "backtrack cw d (AList.update current_var word a) = Inr (None, d1, a1, n)"
    by auto
  from 4 have dom: "backtrack_backtrack_loop_dom (Inl (cw, d, AList.update current_var word a))"
    by simp
  from backtrack_frame_partial(1) [OF dom bt]
  have d1: "d1 = d" and a1: "a1 = AList.update current_var word a" by auto
  from 4 a1 have "a2 = AList.delete current_var a" by (simp add: dict_pop_update)
  with d1 show ?case by (simp add: unassigned_delete)
next
  case (5 cw d current_var word ws a ok a2)
  then have "a2 = AList.delete current_var a" by (simp add: dict_pop_update)
  then show ?case by (simp add: unassigned_delete)
qed

termination backtrack
  by (rule backtrack_dom_all)

declare backtrack.simps [simp del]

lemma backtrack_frame:
  "backtrack cw d a = Inr (r, d', a', n) \<Longrightarrow> d' = d \<and> (r = None \<longrightarrow> a' = a)"
  using backtrack_frame_partial(1) [of cw d a r d' a' n] backtrack_dom_all by simp

lemma backtrack_loop_frame:
  "backtrack_loop cw d var ws a = Inr (r, d', a', n) \<Longrightarrow>
   d' = d \<and> (r = None \<longrightarrow> a' = (if ws = [] then a else AList.delete var a))"
  using backtrack_frame_partial(2) [of cw d var ws a r d' a' n] backtrack_dom_all by simp

text \<open>
  \<^verbatim>\<open>solve\<close>: the value of \<^verbatim>\<open>self.ac3()\<close> is not looked at, and the
  search starts from \<^verbatim>\<open>dict()\<close>.
\<close>

definition solve :: "Crossword \<Rightarrow> domains \<Rightarrow> error + (assignment option \<times> domains \<times> assignment \<times> nat)" where
  "solve cw d =
     (case enforce_node_consistency d of
        Inl e \<Rightarrow> Inl e
      | Inr d1 \<Rightarrow>
          (case ac3 cw d1 None of
             Inl e \<Rightarrow> Inl e
           | Inr (arc_consistent, d2) \<Rightarrow> backtrack cw d2 []))"

section \<open>Notions used in the properties\<close>

text \<open>The words of a slot in the store; none for a slot that is not a key.\<close>

definition words_of :: "domains \<Rightarrow> Variable \<Rightarrow> string list" where
  "words_of d v = (case map_of d v of None \<Rightarrow> [] | Some ws \<Rightarrow> ws)"

text \<open>Every word of every domain has the length of its slot.\<close>

definition node_consistent :: "domains \<Rightarrow> bool" where
  "node_consistent d = (\<forall>v \<in> set (map fst d). \<forall>w \<in> set (words_of d v). length w = var_length v)"

text \<open>The store \<open>d'\<close> has the keys of \<open>d\<close>, and no domain has gained a word.\<close>

definition shrinks :: "domains \<Rightarrow> domains \<Rightarrow> bool" where
  "shrinks d d' = (map fst d' = map fst d \<and> (\<forall>v \<in> set (map fst d). set (words_of d' v) \<subseteq> set (words_of d v)))"

text \<open>
  A word \<open>wx\<close> of \<open>x\<close> is supported in the domain \<open>dy\<close> of \<open>y\<close>, for the
  offsets \<open>(i, j)\<close>: some other word of \<open>dy\<close> has at \<open>j\<close> the letter that
  \<open>wx\<close> has at \<open>i\<close>.
\<close>

definition supported :: "nat \<Rightarrow> nat \<Rightarrow> string list \<Rightarrow> string \<Rightarrow> bool" where
  "supported i j dy wx = (\<exists>wy \<in> set dy. wx ! i = wy ! j \<and> wx \<noteq> wy)"

text \<open>The recorded offsets of two slots of the crossword lie within the slots.\<close>

definition offsets_in_range :: "Crossword \<Rightarrow> bool" where
  "offsets_in_range cw =
     (\<forall>x \<in> set (variables cw). \<forall>y \<in> set (variables cw).
        case overlaps cw (x, y) of None \<Rightarrow> True | Some (p, q) \<Rightarrow> p < var_length x \<and> q < var_length y)"

text \<open>
  A store for the crossword: its keys are the slots, in their order; the slots
  are distinct and the offsets lie within them.
\<close>

definition well_formed :: "Crossword \<Rightarrow> domains \<Rightarrow> bool" where
  "well_formed cw d = (map fst d = variables cw \<and> distinct (variables cw) \<and> offsets_in_range cw)"

text \<open>
  The number of values that a candidate \<open>word\<close> of \<open>var\<close> eliminates: over
  the unassigned neighbors, the number of their candidates that are the same
  word or differ from it at the overlap offsets.
\<close>

definition eliminated :: "Crossword \<Rightarrow> Variable \<Rightarrow> Variable \<Rightarrow> string \<Rightarrow> string \<Rightarrow> bool" where
  "eliminated cw var neighbor word neigbor_word =
     (neigbor_word = word \<or>
      (case overlaps cw (var, neighbor) of
         None \<Rightarrow> False
       | Some (p, q) \<Rightarrow> word ! p \<noteq> neigbor_word ! q))"

definition elimination_count :: "Crossword \<Rightarrow> domains \<Rightarrow> assignment \<Rightarrow> Variable \<Rightarrow> string \<Rightarrow> nat" where
  "elimination_count cw d a var word =
     sum_list (map (\<lambda>neighbor. length (filter (eliminated cw var neighbor word) (words_of d neighbor)))
                   [neighbor \<leftarrow> neighbors cw var. \<not> contains a neighbor])"

text \<open>The word of a slot in an assignment.\<close>

definition word_of :: "assignment \<Rightarrow> Variable \<Rightarrow> string" where
  "word_of a v = (case map_of a v of None \<Rightarrow> [] | Some w \<Rightarrow> w)"

text \<open>
  A consistent assignment, as the spec has it: every word has its slot's
  length, the words of different slots differ, and the words of two slots that
  cross agree at the overlap offsets.
\<close>

definition consistent_assignment :: "Crossword \<Rightarrow> assignment \<Rightarrow> bool" where
  "consistent_assignment cw a =
     ((\<forall>(v, w) \<in> set a. length w = var_length v) \<and>
      (\<forall>(x, wx) \<in> set a. \<forall>(y, wy) \<in> set a. x \<noteq> y \<longrightarrow>
         wx \<noteq> wy \<and> (case overlaps cw (x, y) of None \<Rightarrow> True | Some (p, q) \<Rightarrow> wx ! p = wy ! q)))"

text \<open>Every entry of \<open>a\<close> is an entry of \<open>s\<close>.\<close>

definition extends :: "assignment \<Rightarrow> assignment \<Rightarrow> bool" where
  "extends a s = (set a \<subseteq> set s)"

text \<open>
  A solution for the domains \<open>d\<close>: one word for each slot of the store, taken
  from the slot's domain, the whole consistent.
\<close>

definition is_solution :: "Crossword \<Rightarrow> domains \<Rightarrow> assignment \<Rightarrow> bool" where
  "is_solution cw d s =
     (distinct (map fst s) \<and> set (map fst s) = set (map fst d) \<and>
      (\<forall>(v, w) \<in> set s. w \<in> set (words_of d v)) \<and> consistent_assignment cw s)"

text \<open>
  What holds of the assignment at every call of \<^verbatim>\<open>backtrack\<close>: its slots are
  slots of the crossword, its words come from the domains, and it is consistent.
\<close>

definition search_state :: "Crossword \<Rightarrow> domains \<Rightarrow> assignment \<Rightarrow> bool" where
  "search_state cw d a =
     (set (map fst a) \<subseteq> set (variables cw) \<and> distinct (map fst a) \<and>
      (\<forall>(v, w) \<in> set a. w \<in> set (words_of d v)) \<and> consistent_assignment cw a)"

section \<open>Example crosswords\<close>

text \<open>
  Two slots of length 3 crossing at the second cell of the across slot and the
  first cell of the down slot, with the vocabulary CAT, DOG, ACT.
\<close>

definition slot_across :: Variable where
  "slot_across = \<lparr>var_i = 0, var_j = 0, var_direction = ACROSS, var_length = 3\<rparr>"

definition slot_down :: Variable where
  "slot_down = \<lparr>var_i = 0, var_j = 1, var_direction = DOWN, var_length = 3\<rparr>"

definition crossing :: Crossword where
  "crossing = \<lparr>variables = [slot_across, slot_down], words = [''CAT'', ''DOG'', ''ACT''],
     overlaps = map_of [((slot_across, slot_down), (1, 0)), ((slot_down, slot_across), (0, 1))]\<rparr>"

text \<open>Two parallel across slots of length 3 in rows 0 and 2, which do not cross.\<close>

definition slot_low :: Variable where
  "slot_low = \<lparr>var_i = 2, var_j = 0, var_direction = ACROSS, var_length = 3\<rparr>"

definition parallel :: Crossword where
  "parallel = \<lparr>variables = [slot_across, slot_low], words = [''CAT'', ''DOG''],
     overlaps = (\<lambda>p. None)\<rparr>"

text \<open>
  A grid with five slots: an across slot of length 5 in row 0 crossed by three
  down slots (columns 0, 2 and 4), and an across slot of length 3 in row 2
  crossed by the first two of them.
  \<^verbatim>\<open>
  _____
  _#_#_
  ___##
  \<close>
\<close>

definition ladder_a1 :: Variable where
  "ladder_a1 = \<lparr>var_i = 0, var_j = 0, var_direction = ACROSS, var_length = 5\<rparr>"

definition ladder_a2 :: Variable where
  "ladder_a2 = \<lparr>var_i = 2, var_j = 0, var_direction = ACROSS, var_length = 3\<rparr>"

definition ladder_d1 :: Variable where
  "ladder_d1 = \<lparr>var_i = 0, var_j = 0, var_direction = DOWN, var_length = 3\<rparr>"

definition ladder_d2 :: Variable where
  "ladder_d2 = \<lparr>var_i = 0, var_j = 2, var_direction = DOWN, var_length = 3\<rparr>"

definition ladder_d3 :: Variable where
  "ladder_d3 = \<lparr>var_i = 0, var_j = 4, var_direction = DOWN, var_length = 2\<rparr>"

definition ladder :: Crossword where
  "ladder = \<lparr>variables = [ladder_a1, ladder_a2, ladder_d1, ladder_d2, ladder_d3],
     words = [''HELLO'', ''HAT'', ''OR'', ''ON''],
     overlaps = map_of
       [((ladder_a1, ladder_d1), (0, 0)), ((ladder_d1, ladder_a1), (0, 0)),
        ((ladder_a1, ladder_d2), (2, 0)), ((ladder_d2, ladder_a1), (0, 2)),
        ((ladder_a1, ladder_d3), (4, 0)), ((ladder_d3, ladder_a1), (0, 4)),
        ((ladder_a2, ladder_d1), (0, 2)), ((ladder_d1, ladder_a2), (2, 0)),
        ((ladder_a2, ladder_d2), (2, 2)), ((ladder_d2, ladder_a2), (2, 2))]\<rparr>"

definition ladder_domains :: domains where
  "ladder_domains =
     [(ladder_a1, [''HELLO'']), (ladder_a2, [''HAT'']), (ladder_d1, [''HAT'']),
      (ladder_d2, [''HAT'']), (ladder_d3, [''OR'', ''ON''])]"

text \<open>The two crossing slots with a vocabulary that leaves the across slot without support.\<close>

definition crossing_cd :: Crossword where
  "crossing_cd = \<lparr>variables = [slot_across, slot_down], words = [''CAT'', ''DOG''],
     overlaps = map_of [((slot_across, slot_down), (1, 0)), ((slot_down, slot_across), (0, 1))]\<rparr>"

definition cd_pruned :: domains where
  "cd_pruned = [(slot_across, []), (slot_down, [''CAT'', ''DOG''])]"

text \<open>Stores and an assignment for the two crossing slots.\<close>

definition crossing_nc :: domains where
  "crossing_nc = [(slot_across, [''CAT'', ''DOG'', ''ACT'']), (slot_down, [''CAT'', ''DOG'', ''ACT''])]"

definition crossing_pruned :: domains where
  "crossing_pruned = [(slot_across, [''CAT'', ''ACT'']), (slot_down, [''CAT'', ''DOG'', ''ACT''])]"

definition crossing_solution :: assignment where
  "crossing_solution = [(slot_across, ''CAT''), (slot_down, ''ACT'')]"

section \<open>Domains: node consistency, shrinking\<close>

lemma remove_words_filter_pre:
  "\<forall>p \<in> set pre. \<not> P p \<Longrightarrow>
   remove_words (filter P ws) (pre @ ws) = Inr (pre @ filter (\<lambda>w. \<not> P w) ws)"
proof (induction ws arbitrary: pre)
  case Nil
  then show ?case by simp
next
  case (Cons w ws)
  show ?case
  proof (cases "P w")
    case True
    with Cons.prems have "w \<notin> set pre" by auto
    then have "remove1 w (pre @ w # ws) = pre @ ws"
      by (simp add: remove1_append)
    with True Cons.IH [OF Cons.prems] show ?thesis by simp
  next
    case False
    with Cons.prems have "\<forall>p \<in> set (pre @ [w]). \<not> P p" by auto
    from Cons.IH [OF this] False show ?thesis by simp
  qed
qed

lemma remove_words_filter:
  "remove_words (filter P ws) ws = Inr (filter (\<lambda>w. \<not> P w) ws)"
  using remove_words_filter_pre [of "[]" P ws] by simp

lemma words_of_update:
  "words_of (AList.update k ws d) v = (if v = k then ws else words_of d v)"
  by (simp add: words_of_def update_conv')

lemma keys_update_present:
  "map_of d k = Some ws \<Longrightarrow> map fst (AList.update k ws' d) = map fst d"
  by (induction d) auto

lemma getitem_Inr: "getitem d k = Inr v \<longleftrightarrow> map_of d k = Some v"
  by (simp add: getitem_def split: option.splits)

lemma getitem_words_of: "getitem d k = Inr ws \<Longrightarrow> words_of d k = ws"
  by (simp add: getitem_Inr words_of_def)

lemma map_of_Some_key: "map_of d k = Some v \<Longrightarrow> k \<in> set (map fst d)"
  by (metis domI dom_map_of_conv_image_fst set_map)

subsection \<open>Node consistency is established\<close>

lemma enforce_loop_result:
  "set vs \<subseteq> set (map fst d) \<Longrightarrow>
   \<exists>d'. enforce_loop vs d = Inr d' \<and> map fst d' = map fst d \<and>
        (\<forall>v. words_of d' v = (if v \<in> set vs then [w \<leftarrow> words_of d v. length w = var_length v]
                               else words_of d v))"
proof (induction vs arbitrary: d)
  case Nil
  then show ?case by simp
next
  case (Cons v vs)
  from Cons.prems obtain ws where ws: "map_of d v = Some ws"
    by (metis list.set_intros(1) map_of_eq_None_iff not_None_eq set_map subsetD)
  let ?ws' = "[w \<leftarrow> ws. length w = var_length v]"
  let ?d1 = "AList.update v ?ws' d"
  have rw: "remove_words [word \<leftarrow> ws. length word \<noteq> var_length v] ws = Inr ?ws'"
    using remove_words_filter [of "\<lambda>word. length word \<noteq> var_length v" ws] by simp
  have keys: "map fst ?d1 = map fst d" using ws by (rule keys_update_present)
  with Cons.prems have "set vs \<subseteq> set (map fst ?d1)" by simp
  from Cons.IH [OF this] obtain d' where
    d': "enforce_loop vs ?d1 = Inr d'" "map fst d' = map fst ?d1"
    "\<forall>u. words_of d' u = (if u \<in> set vs then [w \<leftarrow> words_of ?d1 u. length w = var_length u]
                               else words_of ?d1 u)" by blast
  have "enforce_loop (v # vs) d = Inr d'"
    using ws rw d'(1) by (simp add: getitem_def)
  moreover have "map fst d' = map fst d" using d'(2) keys by simp
  moreover have "\<forall>u. words_of d' u = (if u \<in> set (v # vs) then [w \<leftarrow> words_of d u. length w = var_length u]
                               else words_of d u)"
  proof -
    from ws have "words_of d v = ws" by (simp add: words_of_def)
    with d'(3) show ?thesis by (auto simp: words_of_update)
  qed
  ultimately show ?case by blast
qed

lemma enforce_node_consistency_result:
  "\<exists>d'. enforce_node_consistency d = Inr d' \<and> map fst d' = map fst d \<and>
        (\<forall>v. words_of d' v = [w \<leftarrow> words_of d v. length w = var_length v])"
proof -
  from enforce_loop_result [of "map fst d" d] obtain d' where
    d': "enforce_loop (map fst d) d = Inr d'" "map fst d' = map fst d"
    "\<forall>v. words_of d' v = (if v \<in> set (map fst d) then [w \<leftarrow> words_of d v. length w = var_length v]
                               else words_of d v)" by auto
  have "words_of d' v = [w \<leftarrow> words_of d v. length w = var_length v]" for v
  proof (cases "v \<in> set (map fst d)")
    case True
    with d'(3) show ?thesis by simp
  next
    case False
    then have "map_of d v = None" by (simp add: map_of_eq_None_iff)
    then have "words_of d v = []" by (simp add: words_of_def)
    with d'(3) False show ?thesis by simp
  qed
  with d'(1,2) show ?thesis by (auto simp: enforce_node_consistency_def)
qed

subsection \<open>What \<^verbatim>\<open>revise\<close> and \<^verbatim>\<open>ac3\<close> do to the domains\<close>

lemma revise_outer_filter:
  "revise_outer i j d y dx = Inr rm \<Longrightarrow>
   rm = [wx \<leftarrow> dx. revise_inner i j wx (words_of d y) = Inr False]"
proof (induction dx arbitrary: rm)
  case Nil
  then show ?case by simp
next
  case (Cons wx dx)
  from Cons.prems obtain dy ac rest where
    dy: "getitem d y = Inr dy" and ac: "revise_inner i j wx dy = Inr ac" and
    rest: "revise_outer i j d y dx = Inr rest" and rm: "rm = (if ac then rest else wx # rest)"
    by (auto split: sum.splits)
  from Cons.IH [OF rest] ac rm getitem_words_of [OF dy] show ?case by auto
qed

lemma revise_cases:
  assumes "revise cw d x y = Inr (b, d')"
  shows "(\<not> b \<and> d' = d) \<or>
         (b \<and> (\<exists>i j dx. overlaps cw (x, y) = Some (i, j) \<and> map_of d x = Some dx \<and>
                d' = AList.update x [wx \<leftarrow> dx. revise_inner i j wx (words_of d y) \<noteq> Inr False] d \<and>
                [wx \<leftarrow> dx. revise_inner i j wx (words_of d y) = Inr False] \<noteq> []))"
proof (cases "overlaps cw (x, y)")
  case None
  with assms show ?thesis by (simp add: revise_def)
next
  case (Some ij)
  obtain i j where ij: "ij = (i, j)" by (cases ij)
  from assms Some ij obtain dx rm where
    dx: "map_of d x = Some dx" and rm: "revise_outer i j d y dx = Inr rm"
    by (auto simp: revise_def getitem_Inr split: sum.splits)
  from revise_outer_filter [OF rm]
  have rm_eq: "rm = [wx \<leftarrow> dx. revise_inner i j wx (words_of d y) = Inr False]" .
  show ?thesis
  proof (cases "rm = []")
    case True
    with assms Some ij dx rm show ?thesis by (simp add: revise_def getitem_def)
  next
    case False
    have "remove_words rm dx = Inr [wx \<leftarrow> dx. revise_inner i j wx (words_of d y) \<noteq> Inr False]"
      unfolding rm_eq by (rule remove_words_filter)
    with assms Some ij dx rm False rm_eq show ?thesis
      by (auto simp: revise_def getitem_def)
  qed
qed

lemma shrinks_refl: "shrinks d d"
  by (simp add: shrinks_def)

lemma shrinks_trans: "shrinks d d' \<Longrightarrow> shrinks d' d'' \<Longrightarrow> shrinks d d''"
  by (auto simp: shrinks_def)

lemma shrinks_update:
  assumes "map_of d x = Some dx" "set dx' \<subseteq> set dx"
  shows "shrinks d (AList.update x dx' d)"
proof -
  from assms(1) have "words_of d x = dx" by (simp add: words_of_def)
  with assms show ?thesis
    by (auto simp: shrinks_def keys_update_present words_of_update)
qed

lemma revise_shrinks: "revise cw d x y = Inr (b, d') \<Longrightarrow> shrinks d d'"
  by (drule revise_cases) (auto simp: shrinks_refl intro!: shrinks_update)

lemma ac3_loop_shrinks: "ac3_loop cw d arcs = Inr (b, d') \<Longrightarrow> shrinks d d'"
proof (induction cw d arcs arbitrary: b d' rule: ac3_loop.induct)
  case (1 cw d)
  then show ?case by (simp add: shrinks_refl)
next
  case (2 cw d current_arc arcs)
  from "2.prems" obtain revised d1 where
    rv: "revise cw d (fst current_arc) (snd current_arc) = Inr (revised, d1)"
    by (auto split: sum.splits)
  note s1 = revise_shrinks [OF rv]
  show ?case
  proof (cases revised)
    case True
    with "2.prems" rv obtain dx where dx: "getitem d1 (fst current_arc) = Inr dx"
      by (auto split: sum.splits)
    show ?thesis
    proof (cases "length dx = 0")
      case True
      with "2.prems" rv \<open>revised\<close> dx s1 show ?thesis by simp
    next
      case False
      with "2.prems" rv \<open>revised\<close> dx have
        "ac3_loop cw d1 (arcs @ map (\<lambda>neighbor. (neighbor, fst current_arc))
             [neighbor \<leftarrow> neighbors cw (fst current_arc). neighbor \<noteq> snd current_arc]) = Inr (b, d')"
        by simp
      from "2.IH"(1) [OF rv refl \<open>revised\<close> dx False this] s1 show ?thesis
        by (rule shrinks_trans [rotated])
    qed
  next
    case False
    with "2.prems" rv have "ac3_loop cw d1 arcs = Inr (b, d')" by simp
    from "2.IH"(2) [OF rv refl False this] s1 show ?thesis
      by (rule shrinks_trans [rotated])
  qed
qed

lemma shrinks_node_consistent: "shrinks d d' \<Longrightarrow> node_consistent d \<Longrightarrow> node_consistent d'"
  by (auto simp: shrinks_def node_consistent_def)

section \<open>Properties of \<^verbatim>\<open>revise\<close>\<close>

text \<open>
  C10: for an ordered pair of slots \<open>(x, y)\<close> whose overlap entry is \<open>None\<close>,
  \<^verbatim>\<open>revise(x, y)\<close> returns \<open>False\<close> without raising and leaves every domain as
  it was, whatever the domains are.
\<close>

theorem revise_no_overlap:
  "overlaps cw (x, y) = None \<Longrightarrow> revise cw d x y = Inr (False, d)"
  by (simp add: revise_def)

theorem revise_no_overlap_witness:
  "overlaps parallel (slot_across, slot_low) = None \<and>
   revise parallel (init_domains parallel) slot_across slot_low = Inr (False, init_domains parallel)"
  using revise_no_overlap [of parallel slot_across slot_low "init_domains parallel"]
  by (simp add: parallel_def)

lemma revise_inner_supported:
  "i < length wx \<Longrightarrow> \<forall>wy \<in> set dy. j < length wy \<Longrightarrow>
   revise_inner i j wx dy = Inr (supported i j dy wx)"
  by (induction dy) (auto simp: supported_def str_index_def)

lemma revise_outer_supported:
  "\<forall>wx \<in> set dx. i < length wx \<Longrightarrow> \<forall>wy \<in> set dy. j < length wy \<Longrightarrow> map_of d y = Some dy \<Longrightarrow>
   revise_outer i j d y dx = Inr [wx \<leftarrow> dx. \<not> supported i j dy wx]"
  by (induction dx) (auto simp: revise_inner_supported getitem_def)

lemma revise_supported:
  assumes ov: "overlaps cw (x, y) = Some (i, j)"
    and dx: "map_of d x = Some dx" and dy: "map_of d y = Some dy"
    and lx: "\<forall>wx \<in> set dx. i < length wx" and ly: "\<forall>wy \<in> set dy. j < length wy"
  shows "revise cw d x y =
         Inr (\<exists>wx \<in> set dx. \<not> supported i j dy wx, AList.update x [wx \<leftarrow> dx. supported i j dy wx] d)"
proof -
  let ?rm = "[wx \<leftarrow> dx. \<not> supported i j dy wx]"
  have ro: "revise_outer i j d y dx = Inr ?rm"
    using lx ly dy by (rule revise_outer_supported)
  have rw: "remove_words ?rm dx = Inr [wx \<leftarrow> dx. supported i j dy wx]"
    using remove_words_filter [of "\<lambda>wx. \<not> supported i j dy wx" dx] by simp
  show ?thesis
  proof (cases "?rm = []")
    case True
    then have all: "\<forall>wx \<in> set dx. supported i j dy wx" by (simp add: filter_empty_conv)
    then have "[wx \<leftarrow> dx. supported i j dy wx] = dx" by simp
    then have "AList.update x [wx \<leftarrow> dx. supported i j dy wx] d = d"
      using dx by (simp add: update_triv)
    with True all ov dx ro show ?thesis by (simp add: revise_def getitem_def)
  next
    case False
    then have "\<exists>wx \<in> set dx. \<not> supported i j dy wx" by (simp add: filter_empty_conv)
    with False ov dx ro rw show ?thesis by (simp add: revise_def getitem_def)
  qed
qed

text \<open>
  C4: for slots \<open>x\<close> and \<open>y\<close> that cross with offsets \<open>(i, j)\<close>, in a store
  whose words are long enough for the offsets, \<^verbatim>\<open>revise(x, y)\<close> does not raise,
  keeps in the domain of \<open>x\<close> exactly the words \<open>wx\<close> for which some \<open>wy\<close> in
  the domain of \<open>y\<close> has \<open>wx[i] = wy[j]\<close> and \<open>wx \<noteq> wy\<close>, leaves the keys and
  every other domain as they were, and returns \<open>True\<close> exactly when a word of
  the domain of \<open>x\<close> was removed.
\<close>

theorem revise_removes_unsupported:
  assumes "overlaps cw (x, y) = Some (i, j)"
    and "map_of d x = Some dx" and "map_of d y = Some dy"
    and "\<forall>wx \<in> set dx. i < length wx" and "\<forall>wy \<in> set dy. j < length wy"
  shows "\<exists>revised d'. revise cw d x y = Inr (revised, d') \<and>
           map_of d' x = Some [wx \<leftarrow> dx. \<exists>wy \<in> set dy. wx ! i = wy ! j \<and> wx \<noteq> wy] \<and>
           (\<forall>v. v \<noteq> x \<longrightarrow> map_of d' v = map_of d v) \<and>
           map fst d' = map fst d \<and>
           (revised \<longleftrightarrow> (\<exists>wx \<in> set dx. wx \<notin> set (words_of d' x)))"
proof -
  let ?keep = "[wx \<leftarrow> dx. supported i j dy wx]"
  let ?d' = "AList.update x ?keep d"
  have r: "revise cw d x y = Inr (\<exists>wx \<in> set dx. \<not> supported i j dy wx, ?d')"
    using assms by (rule revise_supported)
  have 1: "map_of ?d' x = Some [wx \<leftarrow> dx. \<exists>wy \<in> set dy. wx ! i = wy ! j \<and> wx \<noteq> wy]"
    by (simp add: update_conv' supported_def)
  have 2: "\<forall>v. v \<noteq> x \<longrightarrow> map_of ?d' v = map_of d v"
    by (simp add: update_conv')
  have 3: "map fst ?d' = map fst d"
    using assms(2) by (rule keys_update_present)
  have 4: "(\<exists>wx \<in> set dx. \<not> supported i j dy wx) \<longleftrightarrow> (\<exists>wx \<in> set dx. wx \<notin> set (words_of ?d' x))"
    by (auto simp: words_of_update)
  from r 1 2 3 4 show ?thesis by blast
qed

theorem revise_removes_unsupported_witness:
  "overlaps crossing (slot_across, slot_down) = Some (1, 0) \<and>
   map_of (init_domains crossing) slot_across = Some [''CAT'', ''DOG'', ''ACT''] \<and>
   map_of (init_domains crossing) slot_down = Some [''CAT'', ''DOG'', ''ACT''] \<and>
   list_all (\<lambda>wx. 1 < length wx) [''CAT'', ''DOG'', ''ACT''] \<and>
   list_all (\<lambda>wy. 0 < length wy) [''CAT'', ''DOG'', ''ACT''] \<and>
   (\<exists>revised d'. revise crossing (init_domains crossing) slot_across slot_down = Inr (revised, d') \<and>
      map_of d' slot_across = Some [''CAT'', ''ACT''] \<and> revised)"
proof -
  have ov: "overlaps crossing (slot_across, slot_down) = Some (1, 0)"
    by (simp add: crossing_def slot_across_def slot_down_def)
  have dx: "map_of (init_domains crossing) slot_across = Some [''CAT'', ''DOG'', ''ACT'']"
    by (simp add: init_domains_def crossing_def slot_across_def slot_down_def)
  have dy: "map_of (init_domains crossing) slot_down = Some [''CAT'', ''DOG'', ''ACT'']"
    by (simp add: init_domains_def crossing_def slot_across_def slot_down_def)
  have lx: "\<forall>wx \<in> set [''CAT'', ''DOG'', ''ACT'']. 1 < length wx" by simp
  have ly: "\<forall>wy \<in> set [''CAT'', ''DOG'', ''ACT'']. 0 < length wy" by simp
  from revise_removes_unsupported [OF ov dx dy lx ly] obtain revised d' where
    r: "revise crossing (init_domains crossing) slot_across slot_down = Inr (revised, d')"
    and k: "map_of d' slot_across = Some [wx \<leftarrow> [''CAT'', ''DOG'', ''ACT'']. \<exists>wy \<in> set [''CAT'', ''DOG'', ''ACT'']. wx ! 1 = wy ! 0 \<and> wx \<noteq> wy]"
    and b: "revised \<longleftrightarrow> (\<exists>wx \<in> set [''CAT'', ''DOG'', ''ACT'']. wx \<notin> set (words_of d' slot_across))"
    by blast
  from k have k': "map_of d' slot_across = Some [''CAT'', ''ACT'']" by simp
  then have "words_of d' slot_across = [''CAT'', ''ACT'']" by (simp add: words_of_def)
  with b have revised by simp
  moreover have "list_all (\<lambda>wx. 1 < length wx) [''CAT'', ''DOG'', ''ACT'']"
    and "list_all (\<lambda>wy. 0 < length wy) [''CAT'', ''DOG'', ''ACT'']" by simp_all
  ultimately show ?thesis using ov dx dy r k' by blast
qed

section \<open>The length invariant and the shrinking of domains\<close>

lemma ac3_shrinks: "ac3 cw d arcs = Inr (b, d') \<Longrightarrow> shrinks d d'"
  unfolding ac3_def by (rule ac3_loop_shrinks)

lemma solve_domains:
  assumes "solve cw d = Inr (r, d', a, n)"
  shows "shrinks d d' \<and> node_consistent d'"
proof -
  from enforce_node_consistency_result [of d] obtain d1 where
    d1: "enforce_node_consistency d = Inr d1" "map fst d1 = map fst d"
    "\<forall>v. words_of d1 v = [w \<leftarrow> words_of d v. length w = var_length v]" by blast
  from assms d1(1) obtain b d2 where
    ac: "ac3 cw d1 None = Inr (b, d2)" and bt: "backtrack cw d2 [] = Inr (r, d', a, n)"
    by (auto simp: solve_def split: sum.splits)
  from backtrack_frame [OF bt] have "d' = d2" by simp
  moreover have "shrinks d d1" using d1(2,3) by (simp add: shrinks_def)
  moreover have "node_consistent d1" using d1(3) by (simp add: node_consistent_def)
  moreover note ac3_shrinks [OF ac]
  ultimately show ?thesis
    by (auto intro: shrinks_trans shrinks_node_consistent)
qed

text \<open>
  C8: \<^verbatim>\<open>enforce_node_consistency\<close> does not raise and leaves in every domain
  only words of the slot's length, removing words only. \<^verbatim>\<open>revise\<close> and
  \<^verbatim>\<open>ac3\<close>, from any store, keep the keys and leave every domain a subset of
  what it was, so they preserve the length invariant; the store that \<^verbatim>\<open>solve\<close>
  ends with is a shrunk, node-consistent version of the one it started with.
\<close>

theorem domains_shrink_and_keep_lengths:
  "(\<exists>d1. enforce_node_consistency d = Inr d1 \<and> node_consistent d1 \<and> shrinks d d1) \<and>
   (\<forall>revised d'. revise cw d x y = Inr (revised, d') \<longrightarrow>
      shrinks d d' \<and> (node_consistent d \<longrightarrow> node_consistent d')) \<and>
   (\<forall>ok d'. ac3 cw d arcs = Inr (ok, d') \<longrightarrow>
      shrinks d d' \<and> (node_consistent d \<longrightarrow> node_consistent d')) \<and>
   (\<forall>r d' a n. solve cw d = Inr (r, d', a, n) \<longrightarrow> shrinks d d' \<and> node_consistent d')"
proof -
  from enforce_node_consistency_result [of d] obtain d1 where
    d1: "enforce_node_consistency d = Inr d1" "map fst d1 = map fst d"
    "\<forall>v. words_of d1 v = [w \<leftarrow> words_of d v. length w = var_length v]" by blast
  have "node_consistent d1" using d1(3) by (simp add: node_consistent_def)
  moreover have "shrinks d d1" using d1(2,3) by (simp add: shrinks_def)
  ultimately have 1: "\<exists>d1. enforce_node_consistency d = Inr d1 \<and> node_consistent d1 \<and> shrinks d d1"
    using d1(1) by blast
  have 2: "\<forall>revised d'. revise cw d x y = Inr (revised, d') \<longrightarrow>
      shrinks d d' \<and> (node_consistent d \<longrightarrow> node_consistent d')"
    by (blast intro: revise_shrinks shrinks_node_consistent)
  have 3: "\<forall>ok d'. ac3 cw d arcs = Inr (ok, d') \<longrightarrow>
      shrinks d d' \<and> (node_consistent d \<longrightarrow> node_consistent d')"
    by (blast intro: ac3_shrinks shrinks_node_consistent)
  have 4: "\<forall>r d' a n. solve cw d = Inr (r, d', a, n) \<longrightarrow> shrinks d d' \<and> node_consistent d'"
    by (blast dest: solve_domains)
  from 1 2 3 4 show ?thesis by blast
qed

theorem domains_shrink_and_keep_lengths_witness:
  "revise crossing (init_domains crossing) slot_across slot_down = Inr (True, crossing_pruned) \<and>
   ac3 crossing (init_domains crossing) None = Inr (True, crossing_pruned) \<and>
   solve crossing (init_domains crossing) =
     Inr (Some [(slot_across, ''CAT''), (slot_down, ''ACT'')], crossing_pruned,
          [(slot_across, ''CAT''), (slot_down, ''ACT'')], 3) \<and>
   node_consistent (init_domains crossing) \<and>
   shrinks (init_domains crossing) crossing_pruned \<and> node_consistent crossing_pruned"
proof -
  have r: "revise crossing (init_domains crossing) slot_across slot_down = Inr (True, crossing_pruned)"
    by code_simp
  have a: "ac3 crossing (init_domains crossing) None = Inr (True, crossing_pruned)"
    by code_simp
  have s: "solve crossing (init_domains crossing) =
     Inr (Some [(slot_across, ''CAT''), (slot_down, ''ACT'')], crossing_pruned,
          [(slot_across, ''CAT''), (slot_down, ''ACT'')], 3)"
    by code_simp
  have n: "node_consistent (init_domains crossing)"
    by (simp add: node_consistent_def init_domains_def crossing_def words_of_def
          slot_across_def slot_down_def)
  from domains_shrink_and_keep_lengths
    [of "init_domains crossing" crossing slot_across slot_down None] r a s n
  show ?thesis by blast
qed

section \<open>\<^verbatim>\<open>backtrack\<close> leaves the domains alone\<close>

text \<open>
  C9: a call of \<^verbatim>\<open>backtrack\<close> that returns, with a solution or with
  \<open>None\<close>, leaves the domain store exactly as it found it; so does every run
  of its loop over the candidate words.
\<close>

theorem backtrack_keeps_domains:
  "(\<forall>r d' a' n. backtrack cw d a = Inr (r, d', a', n) \<longrightarrow> d' = d) \<and>
   (\<forall>r d' a' n. backtrack_loop cw d var ws al = Inr (r, d', a', n) \<longrightarrow> d' = d)"
  by (blast dest: backtrack_frame backtrack_loop_frame)

theorem backtrack_keeps_domains_witness:
  "backtrack crossing crossing_pruned [] =
     Inr (Some [(slot_across, ''CAT''), (slot_down, ''ACT'')], crossing_pruned,
          [(slot_across, ''CAT''), (slot_down, ''ACT'')], 3) \<and>
   backtrack_loop crossing crossing_pruned slot_down [''DOG''] [(slot_across, ''CAT'')] =
     Inr (None, crossing_pruned, [(slot_across, ''CAT'')], 0)"
proof -
  have b: "backtrack crossing crossing_pruned [] =
     Inr (Some [(slot_across, ''CAT''), (slot_down, ''ACT'')], crossing_pruned,
          [(slot_across, ''CAT''), (slot_down, ''ACT'')], 3)"
    by code_simp
  have l: "backtrack_loop crossing crossing_pruned slot_down [''DOG''] [(slot_across, ''CAT'')] =
     Inr (None, crossing_pruned, [(slot_across, ''CAT'')], 0)"
    by code_simp
  from backtrack_keeps_domains [where cw = crossing and d = crossing_pruned and a = "[]"
      and var = slot_down and ws = "[''DOG'']" and al = "[(slot_across, ''CAT'')]"] b l
  show ?thesis by simp
qed

section \<open>Properties of \<^verbatim>\<open>select_unassigned_variable\<close>\<close>

lemma enumerate_list_set:
  "(i, v) \<in> set (enumerate_list xs) \<longleftrightarrow> i < length xs \<and> xs ! i = v"
proof
  assume "(i, v) \<in> set (enumerate_list xs)"
  then show "i < length xs \<and> xs ! i = v"
    by (auto simp: enumerate_list_def in_set_zip)
next
  assume a: "i < length xs \<and> xs ! i = v"
  then have "[0..<length xs] ! i = i \<and> xs ! i = v \<and> i < length xs" by simp
  then show "(i, v) \<in> set (enumerate_list xs)"
    unfolding enumerate_list_def in_set_zip by auto
qed

lemma list_index_nth: "n < length xs \<Longrightarrow> list_index xs n = Inr (xs ! n)"
  by (simp add: list_index_def)

lemma getitem_key: "k \<in> set (map fst d) \<Longrightarrow> getitem d k = Inr (words_of d k)"
proof -
  assume "k \<in> set (map fst d)"
  then obtain ws where "map_of d k = Some ws"
    by (metis map_of_eq_None_iff not_None_eq set_map)
  then show ?thesis by (simp add: getitem_def words_of_def)
qed

lemma min_domain_loop_total:
  "\<forall>(i, v) \<in> set es. v \<in> set (map fst d) \<Longrightarrow>
   \<exists>m' idxs'. min_domain_loop d es m idxs = Inr (m', idxs')"
proof (induction es arbitrary: m idxs)
  case Nil
  then show ?case by simp
next
  case (Cons e es)
  obtain i v where e: "e = (i, v)" by (cases e)
  with Cons.prems have "v \<in> set (map fst d)" and
    rest: "\<forall>(i, v) \<in> set es. v \<in> set (map fst d)" by auto
  from this(1) have v: "getitem d v = Inr (words_of d v)" by (rule getitem_key)
  from Cons.IH [OF rest] e v show ?case by simp
qed

lemma min_domain_loop_inv:
  assumes "min_domain_loop d es m idxs = Inr (m', idxs')"
    and "\<forall>(i, v) \<in> set es. i < length rem \<and> rem ! i = v"
    and "\<forall>i \<in> set idxs. i < length rem \<and> length (words_of d (rem ! i)) = m"
    and "idxs \<noteq> []"
  shows "(\<forall>i \<in> set idxs'. i < length rem \<and> length (words_of d (rem ! i)) = m') \<and>
         idxs' \<noteq> [] \<and> m' \<le> m \<and> (\<forall>(i, v) \<in> set es. m' \<le> length (words_of d v))"
  using assms
proof (induction es arbitrary: m idxs)
  case Nil
  then show ?case by simp
next
  case (Cons e es)
  obtain i v where e: "e = (i, v)" by (cases e)
  from Cons.prems(1) e obtain dv where dv: "getitem d v = Inr dv"
    by (auto split: sum.splits)
  then have w: "words_of d v = dv" by (rule getitem_words_of)
  from Cons.prems(2) e have iv: "i < length rem" "rem ! i = v" and
    rest: "\<forall>(i, v) \<in> set es. i < length rem \<and> rem ! i = v" by auto
  consider (less) "length dv < m" | (eq) "length dv = m" | (greater) "length dv > m"
    by linarith
  then show ?case
  proof cases
    case less
    with Cons.prems(1) e dv have run: "min_domain_loop d es (length dv) [i] = Inr (m', idxs')"
      by simp
    have "\<forall>k \<in> set [i]. k < length rem \<and> length (words_of d (rem ! k)) = length dv"
      using iv w by simp
    from Cons.IH [OF run rest this] less e w show ?thesis by auto
  next
    case eq
    with Cons.prems(1) e dv have run: "min_domain_loop d es m (idxs @ [i]) = Inr (m', idxs')"
      by simp
    have "\<forall>k \<in> set (idxs @ [i]). k < length rem \<and> length (words_of d (rem ! k)) = m"
      using iv w eq Cons.prems(3) by auto
    from Cons.IH [OF run rest this] eq e w show ?thesis by auto
  next
    case greater
    with Cons.prems(1) e dv have run: "min_domain_loop d es m idxs = Inr (m', idxs')"
      by simp
    from Cons.IH [OF run rest Cons.prems(3,4)] greater e w show ?thesis by auto
  qed
qed

lemma num_neighbors_list_total:
  "\<forall>i \<in> set idxs. i < length rem \<Longrightarrow>
   num_neighbors_list cw rem idxs = Inr (map (\<lambda>i. length (neighbors cw (rem ! i))) idxs)"
  by (induction idxs) (auto simp: list_index_def)

lemma max_neighbors_loop_bound:
  "\<forall>(i, n) \<in> set es. i < N \<Longrightarrow> m < N \<Longrightarrow> max_neighbors_loop es m < N"
  by (induction es arbitrary: m) auto

lemma select_unassigned_variable_min:
  assumes u0: "u0 \<in> set (map fst d)" "\<not> contains a u0"
  shows "\<exists>v. select_unassigned_variable cw d a = Inr v \<and> v \<in> set (map fst d) \<and> \<not> contains a v \<and>
           (\<forall>u \<in> set (map fst d). \<not> contains a u \<longrightarrow> length (words_of d v) \<le> length (words_of d u))"
proof -
  define rem where "rem = [var \<leftarrow> map fst d. \<not> contains a var]"
  from u0 have ne: "rem \<noteq> []" by (auto simp: rem_def filter_empty_conv)
  have rem_keys: "\<And>v. v \<in> set rem \<Longrightarrow> v \<in> set (map fst d) \<and> \<not> contains a v"
    by (auto simp: rem_def)
  from ne have i0: "list_index rem 0 = Inr (rem ! 0)" by (simp add: list_index_def)
  from ne have "rem ! 0 \<in> set rem" by simp
  then have g0: "getitem d (rem ! 0) = Inr (words_of d (rem ! 0))"
    by (auto intro: getitem_key dest: rem_keys)
  have es: "\<forall>(i, v) \<in> set (enumerate_list rem). i < length rem \<and> rem ! i = v"
    by (auto simp: enumerate_list_set)
  then have "\<forall>(i, v) \<in> set (enumerate_list rem). v \<in> set (map fst d)"
    using rem_keys by fastforce
  from min_domain_loop_total [OF this] obtain m' idxs' where
    run: "min_domain_loop d (enumerate_list rem) (length (words_of d (rem ! 0))) [0] = Inr (m', idxs')"
    by blast
  have "\<forall>i \<in> set [0]. i < length rem \<and>
          length (words_of d (rem ! i)) = length (words_of d (rem ! 0))"
    using ne by simp
  from min_domain_loop_inv [OF run es this]
  have idxs: "\<forall>i \<in> set idxs'. i < length rem \<and> length (words_of d (rem ! i)) = m'"
    and ne': "idxs' \<noteq> []"
    and least: "\<forall>(i, v) \<in> set (enumerate_list rem). m' \<le> length (words_of d v)"
    by auto
  have least': "m' \<le> length (words_of d u)" if "u \<in> set rem" for u
  proof -
    from that obtain i where "i < length rem" "rem ! i = u" by (auto simp: in_set_conv_nth)
    then have "(i, u) \<in> set (enumerate_list rem)" by (simp add: enumerate_list_set)
    with least show ?thesis by auto
  qed
  have pick: "\<exists>v. list_index rem (idxs' ! k) = Inr v \<and> v \<in> set rem \<and> length (words_of d v) = m'"
    if "k < length idxs'" for k
  proof -
    from that have "idxs' ! k \<in> set idxs'" by simp
    with idxs have "idxs' ! k < length rem" "length (words_of d (rem ! (idxs' ! k))) = m'"
      by auto
    then show ?thesis by (simp add: list_index_def)
  qed
  have "\<exists>v. select_unassigned_variable cw d a = Inr v \<and> v \<in> set rem \<and> length (words_of d v) = m'"
  proof (cases "length idxs' = 1")
    case True
    then have "list_index idxs' 0 = Inr (idxs' ! 0)" by (simp add: list_index_def)
    moreover from True pick [of 0] obtain v where
      "list_index rem (idxs' ! 0) = Inr v" "v \<in> set rem" "length (words_of d v) = m'" by auto
    ultimately show ?thesis
      using i0 g0 run True
      by (simp add: select_unassigned_variable_def rem_def [symmetric])
  next
    case False
    let ?nums = "map (\<lambda>i. length (neighbors cw (rem ! i))) idxs'"
    let ?k = "max_neighbors_loop (enumerate_list ?nums) 0"
    have nn: "num_neighbors_list cw rem idxs' = Inr ?nums"
      using idxs by (intro num_neighbors_list_total) auto
    have "\<forall>(i, n) \<in> set (enumerate_list ?nums). i < length idxs'"
      by (auto simp: enumerate_list_set)
    moreover from ne' have "0 < length idxs'" by simp
    ultimately have k: "?k < length idxs'" by (rule max_neighbors_loop_bound)
    then have "list_index idxs' ?k = Inr (idxs' ! ?k)" by (simp add: list_index_def)
    moreover from pick [OF k] obtain v where
      "list_index rem (idxs' ! ?k) = Inr v" "v \<in> set rem" "length (words_of d v) = m'" by auto
    ultimately show ?thesis
      using i0 g0 run False nn
      by (simp add: select_unassigned_variable_def rem_def [symmetric])
  qed
  then obtain v where v: "select_unassigned_variable cw d a = Inr v" "v \<in> set rem"
    "length (words_of d v) = m'" by blast
  have "\<forall>u \<in> set (map fst d). \<not> contains a u \<longrightarrow> length (words_of d v) \<le> length (words_of d u)"
  proof (intro ballI impI)
    fix u assume "u \<in> set (map fst d)" "\<not> contains a u"
    then have "u \<in> set rem" by (simp add: rem_def)
    from least' [OF this] v(3) show "length (words_of d v) \<le> length (words_of d u)" by simp
  qed
  with v rem_keys [OF v(2)] show ?thesis by blast
qed

text \<open>
  C6, on the degree tie-break: in the five-slot grid, after node consistency the
  slots \<open>ladder_a1\<close> (three neighbors) and \<open>ladder_a2\<close> (two neighbors) both
  have one word left, the smallest domain size; the slot returned is
  \<open>ladder_a2\<close>.
\<close>

theorem select_unassigned_variable_degree_tie:
  "enforce_node_consistency (init_domains ladder) = Inr ladder_domains \<and>
   select_unassigned_variable ladder ladder_domains [] = Inr ladder_a2 \<and>
   length (words_of ladder_domains ladder_a1) = 1 \<and>
   length (words_of ladder_domains ladder_a2) = 1 \<and>
   length (neighbors ladder ladder_a1) = 3 \<and>
   length (neighbors ladder ladder_a2) = 2"
  by code_simp

section \<open>The initial worklist of \<^verbatim>\<open>ac3\<close>\<close>

lemma in_combinations2: "(x, y) \<in> set (combinations2 xs) \<Longrightarrow> x \<in> set xs \<and> y \<in> set xs"
  by (induction xs) auto

lemma combinations2_one_direction:
  "distinct xs \<Longrightarrow> (x, y) \<in> set (combinations2 xs) \<Longrightarrow> (y, x) \<notin> set (combinations2 xs)"
  by (induction xs) (auto dest: in_combinations2)

text \<open>
  C5: with \<^verbatim>\<open>arcs = None\<close> the worklist is \<open>combinations2\<close> of the keys: for the
  two crossing slots it holds the arc from the across slot to the down slot and
  not the reverse arc, and \<^verbatim>\<open>ac3\<close> returns \<open>True\<close> with DOG still in the down
  slot's domain, a word with no partner in the across slot's domain.
\<close>

theorem ac3_seed_one_direction:
  "combinations2 (map fst (init_domains crossing)) = [(slot_across, slot_down)] \<and>
   ac3 crossing (init_domains crossing) None = Inr (True, crossing_pruned) \<and>
   overlaps crossing (slot_down, slot_across) = Some (0, 1) \<and>
   ''DOG'' \<in> set (words_of crossing_pruned slot_down) \<and>
   \<not> (\<exists>wy \<in> set (words_of crossing_pruned slot_across). ''DOG'' ! 0 = wy ! 1 \<and> ''DOG'' \<noteq> wy)"
  by code_simp

section \<open>Properties of \<^verbatim>\<open>order_domain_values\<close>\<close>

lemma eliminations_words_count:
  assumes "overlaps cw (var, neighbor) = Some (p, q)" "p < length word"
    and "\<forall>nw \<in> set ws. q < length nw"
  shows "eliminations_words cw var neighbor word ws n =
         Inr (n + length (filter (eliminated cw var neighbor word) ws))"
  using assms(3)
proof (induction ws arbitrary: n)
  case Nil
  then show ?case by simp
next
  case (Cons nw ws)
  then have "q < length nw" and rest: "\<forall>nw \<in> set ws. q < length nw" by auto
  with assms(1,2) Cons.IH [OF rest] show ?case
    by (auto simp: eliminated_def str_index_def)
qed

lemma eliminations_neighbors_count:
  assumes "\<forall>nb \<in> set ns. \<not> contains a nb \<longrightarrow>
             nb \<in> set (map fst d) \<and>
             (\<exists>p q. overlaps cw (var, nb) = Some (p, q) \<and> p < length word \<and>
                    (\<forall>nw \<in> set (words_of d nb). q < length nw))"
  shows "eliminations_neighbors cw d a var word ns n =
         Inr (n + sum_list (map (\<lambda>nb. length (filter (eliminated cw var nb word) (words_of d nb)))
                                [nb \<leftarrow> ns. \<not> contains a nb]))"
  using assms
proof (induction ns arbitrary: n)
  case Nil
  then show ?case by simp
next
  case (Cons nb ns)
  from Cons.prems have rest: "\<forall>nb \<in> set ns. \<not> contains a nb \<longrightarrow>
             nb \<in> set (map fst d) \<and>
             (\<exists>p q. overlaps cw (var, nb) = Some (p, q) \<and> p < length word \<and>
                    (\<forall>nw \<in> set (words_of d nb). q < length nw))" by simp
  show ?case
  proof (cases "contains a nb")
    case True
    with Cons.IH [OF rest] show ?thesis by simp
  next
    case False
    with Cons.prems obtain p q where key: "nb \<in> set (map fst d)" and
      ov: "overlaps cw (var, nb) = Some (p, q)" "p < length word"
      "\<forall>nw \<in> set (words_of d nb). q < length nw" by auto
    from getitem_key [OF key] eliminations_words_count [OF ov, of n] Cons.IH [OF rest] False
    show ?thesis by simp
  qed
qed

lemma eliminations_per_word_count:
  assumes "\<forall>word \<in> set ws. \<forall>nb \<in> set (neighbors cw var). \<not> contains a nb \<longrightarrow>
             nb \<in> set (map fst d) \<and>
             (\<exists>p q. overlaps cw (var, nb) = Some (p, q) \<and> p < length word \<and>
                    (\<forall>nw \<in> set (words_of d nb). q < length nw))"
  shows "eliminations_per_word cw d a var ws =
         Inr (map (\<lambda>word. (word, elimination_count cw d a var word)) ws)"
  using assms
proof (induction ws)
  case Nil
  then show ?case by simp
next
  case (Cons word ws)
  from Cons.prems have now: "\<forall>nb \<in> set (neighbors cw var). \<not> contains a nb \<longrightarrow>
             nb \<in> set (map fst d) \<and>
             (\<exists>p q. overlaps cw (var, nb) = Some (p, q) \<and> p < length word \<and>
                    (\<forall>nw \<in> set (words_of d nb). q < length nw))"
    and rest: "\<forall>word \<in> set ws. \<forall>nb \<in> set (neighbors cw var). \<not> contains a nb \<longrightarrow>
             nb \<in> set (map fst d) \<and>
             (\<exists>p q. overlaps cw (var, nb) = Some (p, q) \<and> p < length word \<and>
                    (\<forall>nw \<in> set (words_of d nb). q < length nw))" by simp_all
  from eliminations_neighbors_count [OF now, of 0] Cons.IH [OF rest]
  show ?case by (simp add: elimination_count_def)
qed

lemma insort_key_pairs:
  "insort_key snd (w, f w) (map (\<lambda>x. (x, f x)) xs) = map (\<lambda>x. (x, f x)) (insort_key f w xs)"
  by (induction xs) auto

lemma sort_key_pairs:
  "sort_key snd (map (\<lambda>x. (x, f x)) xs) = map (\<lambda>x. (x, f x)) (sort_key f xs)"
  by (induction xs) (simp_all add: insort_key_pairs)

lemma sort_key_pairs_fst:
  "map fst (sort_key snd (map (\<lambda>x. (x, f x)) xs)) = sort_key f xs"
  by (simp add: sort_key_pairs comp_def)

lemma neighbors_set:
  "nb \<in> set (neighbors cw var) \<longleftrightarrow>
   nb \<in> set (variables cw) \<and> nb \<noteq> var \<and> overlaps cw (var, nb) \<noteq> None"
  by (auto simp: neighbors_def)

lemma order_domain_values_sort_key:
  assumes keys: "map fst d = variables cw" and rng: "offsets_in_range cw"
    and nc: "node_consistent d" and var: "var \<in> set (variables cw)"
  shows "order_domain_values cw d var a =
         Inr (sort_key (elimination_count cw d a var) (words_of d var))"
proof -
  have "\<forall>word \<in> set (words_of d var). \<forall>nb \<in> set (neighbors cw var). \<not> contains a nb \<longrightarrow>
             nb \<in> set (map fst d) \<and>
             (\<exists>p q. overlaps cw (var, nb) = Some (p, q) \<and> p < length word \<and>
                    (\<forall>nw \<in> set (words_of d nb). q < length nw))"
  proof (intro ballI impI)
    fix word nb
    assume word: "word \<in> set (words_of d var)" and nb: "nb \<in> set (neighbors cw var)"
    from nb have nbv: "nb \<in> set (variables cw)" and "overlaps cw (var, nb) \<noteq> None"
      by (simp_all add: neighbors_set)
    then obtain p q where ov: "overlaps cw (var, nb) = Some (p, q)" by auto
    with rng var nbv have pq: "p < var_length var" "q < var_length nb"
      by (auto simp: offsets_in_range_def split: option.splits)
    from nc keys var word have "length word = var_length var"
      by (simp add: node_consistent_def)
    moreover from nc keys nbv have "\<forall>nw \<in> set (words_of d nb). length nw = var_length nb"
      by (simp add: node_consistent_def)
    ultimately show "nb \<in> set (map fst d) \<and>
             (\<exists>p q. overlaps cw (var, nb) = Some (p, q) \<and> p < length word \<and>
                    (\<forall>nw \<in> set (words_of d nb). q < length nw))"
      using ov pq nbv keys by auto
  qed
  from eliminations_per_word_count [OF this]
  have "eliminations_per_word cw d a var (words_of d var) =
         Inr (map (\<lambda>word. (word, elimination_count cw d a var word)) (words_of d var))" .
  moreover from var keys have "getitem d var = Inr (words_of d var)"
    by (intro getitem_key) simp
  ultimately show ?thesis
    by (simp add: order_domain_values_def sort_key_pairs_fst)
qed

text \<open>
  C7: for a slot \<open>var\<close> of a crossword whose offsets lie within the slots, in
  a node-consistent store over the crossword's slots, \<^verbatim>\<open>order_domain_values\<close>
  does not raise and returns the words of \<open>var\<close>'s domain, each as often as
  there, in ascending order of the number of candidates they eliminate from the
  domains of the unassigned neighbors; words with equal counts keep the order
  of the domain.
\<close>

theorem order_domain_values_sorted:
  assumes "map fst d = variables cw" and "offsets_in_range cw"
    and "node_consistent d" and "var \<in> set (variables cw)"
  shows "\<exists>ws. order_domain_values cw d var a = Inr ws \<and>
           mset ws = mset (words_of d var) \<and>
           sorted (map (elimination_count cw d a var) ws) \<and>
           ws = sort_key (elimination_count cw d a var) (words_of d var)"
  using order_domain_values_sort_key [OF assms] by simp

theorem order_domain_values_sorted_witness:
  "map fst crossing_nc = variables crossing \<and> offsets_in_range crossing \<and>
   node_consistent crossing_nc \<and> slot_across \<in> set (variables crossing) \<and>
   order_domain_values crossing crossing_nc slot_across [] = Inr [''CAT'', ''ACT'', ''DOG''] \<and>
   map (elimination_count crossing crossing_nc [] slot_across) [''CAT'', ''ACT'', ''DOG''] = [2, 2, 3]"
proof -
  have k: "map fst crossing_nc = variables crossing" by code_simp
  have r: "offsets_in_range crossing" by code_simp
  have n: "node_consistent crossing_nc" by code_simp
  have v: "slot_across \<in> set (variables crossing)" by code_simp
  have e: "map (elimination_count crossing crossing_nc [] slot_across) [''CAT'', ''ACT'', ''DOG''] = [2, 2, 3]"
    by code_simp
  have w: "words_of crossing_nc slot_across = [''CAT'', ''DOG'', ''ACT'']" by code_simp
  from order_domain_values_sorted [OF k r n v, of "[]"] obtain ws where
    ws: "order_domain_values crossing crossing_nc slot_across [] = Inr ws"
    "ws = sort_key (elimination_count crossing crossing_nc [] slot_across) (words_of crossing_nc slot_across)"
    by blast
  have "sort_key (elimination_count crossing crossing_nc [] slot_across) [''CAT'', ''DOG'', ''ACT'']
        = [''CAT'', ''ACT'', ''DOG'']" by code_simp
  with ws w have "order_domain_values crossing crossing_nc slot_across [] = Inr [''CAT'', ''ACT'', ''DOG'']"
    by simp
  with k r n v e show ?thesis by simp
qed

section \<open>\<^verbatim>\<open>solve\<close> when \<^verbatim>\<open>ac3\<close> fails\<close>

lemma ac3_loop_False_empty:
  "ac3_loop cw d arcs = Inr (False, d') \<Longrightarrow> \<exists>x \<in> set (map fst d'). words_of d' x = []"
proof (induction cw d arcs rule: ac3_loop.induct)
  case (1 cw d)
  then show ?case by simp
next
  case (2 cw d current_arc arcs)
  from "2.prems" obtain revised d1 where
    rv: "revise cw d (fst current_arc) (snd current_arc) = Inr (revised, d1)"
    by (auto split: sum.splits)
  show ?case
  proof (cases revised)
    case True
    with "2.prems" rv obtain dx where dx: "getitem d1 (fst current_arc) = Inr dx"
      by (auto split: sum.splits)
    show ?thesis
    proof (cases "length dx = 0")
      case True
      with "2.prems" rv \<open>revised\<close> dx have "d' = d1" by simp
      moreover from dx have "map_of d1 (fst current_arc) = Some dx" by (simp add: getitem_Inr)
      then have "fst current_arc \<in> set (map fst d1)" by (rule map_of_Some_key)
      moreover from dx True have "words_of d1 (fst current_arc) = []"
        by (simp add: getitem_words_of)
      ultimately show ?thesis by blast
    next
      case False
      with "2.prems" rv \<open>revised\<close> dx have
        "ac3_loop cw d1 (arcs @ map (\<lambda>neighbor. (neighbor, fst current_arc))
             [neighbor \<leftarrow> neighbors cw (fst current_arc). neighbor \<noteq> snd current_arc]) = Inr (False, d')"
        by simp
      from "2.IH"(1) [OF rv refl \<open>revised\<close> dx False this] show ?thesis .
    qed
  next
    case False
    with "2.prems" rv have "ac3_loop cw d1 arcs = Inr (False, d')" by simp
    from "2.IH"(2) [OF rv refl False this] show ?thesis .
  qed
qed

lemma assignment_complete_loop_iff:
  "assignment_complete_loop vs a \<longleftrightarrow> (\<forall>v \<in> set vs. contains a v)"
  by (induction vs) auto

lemma assignment_complete_iff:
  "assignment_complete d a \<longleftrightarrow> (\<forall>v \<in> set (map fst d). contains a v)"
  by (simp add: assignment_complete_def assignment_complete_loop_iff)

lemma backtrack_empty_domain:
  assumes x: "x \<in> set (map fst d)" "words_of d x = []"
  shows "backtrack cw d [] = Inr (None, d, [], 1)"
proof -
  have nx: "\<not> contains [] x" by (simp add: contains_def)
  with x(1) have inc: "\<not> assignment_complete d []"
    by (auto simp: assignment_complete_iff)
  from select_unassigned_variable_min [OF x(1) nx, of cw] obtain v where
    sel: "select_unassigned_variable cw d [] = Inr v" and key: "v \<in> set (map fst d)"
    and least: "length (words_of d v) \<le> length (words_of d x)"
    using x(1) nx by blast
  from least x(2) have "words_of d v = []" by simp
  with getitem_key [OF key] have "order_domain_values cw d v [] = Inr []"
    by (simp add: order_domain_values_def)
  with inc sel show ?thesis by (simp add: backtrack.simps [of cw d "[]"])
qed

text \<open>
  C3, as the code has it: when the \<^verbatim>\<open>ac3\<close> call of \<^verbatim>\<open>solve\<close> returns \<open>False\<close>,
  \<^verbatim>\<open>solve\<close> still calls \<^verbatim>\<open>backtrack\<close> on the empty assignment; that call is
  the only invocation of \<^verbatim>\<open>backtrack\<close>, tries no word and returns \<open>None\<close>,
  which is what \<^verbatim>\<open>solve\<close> returns.
\<close>

theorem solve_after_failed_ac3:
  assumes "enforce_node_consistency d = Inr d1" and "ac3 cw d1 None = Inr (False, d2)"
  shows "solve cw d = backtrack cw d2 [] \<and> backtrack cw d2 [] = Inr (None, d2, [], 1)"
proof -
  from assms(2) have "\<exists>x \<in> set (map fst d2). words_of d2 x = []"
    unfolding ac3_def by (rule ac3_loop_False_empty)
  then obtain x where "x \<in> set (map fst d2)" "words_of d2 x = []" by blast
  then have "backtrack cw d2 [] = Inr (None, d2, [], 1)"
    by (rule backtrack_empty_domain)
  with assms show ?thesis by (simp add: solve_def)
qed

theorem solve_after_failed_ac3_witness:
  "enforce_node_consistency (init_domains crossing_cd) = Inr (init_domains crossing_cd) \<and>
   ac3 crossing_cd (init_domains crossing_cd) None = Inr (False, cd_pruned) \<and>
   solve crossing_cd (init_domains crossing_cd) = backtrack crossing_cd cd_pruned [] \<and>
   backtrack crossing_cd cd_pruned [] = Inr (None, cd_pruned, [], 1)"
proof -
  have e: "enforce_node_consistency (init_domains crossing_cd) = Inr (init_domains crossing_cd)"
    by code_simp
  have a: "ac3 crossing_cd (init_domains crossing_cd) None = Inr (False, cd_pruned)"
    by code_simp
  from solve_after_failed_ac3 [OF e a] e a show ?thesis by simp
qed

text \<open>
  C3, as stated, fails: for the two crossing slots with the vocabulary CAT, DOG
  the \<^verbatim>\<open>ac3\<close> call of \<^verbatim>\<open>solve\<close> empties the across slot's domain and returns
  \<open>False\<close>, and \<^verbatim>\<open>solve\<close> returns \<open>None\<close> after one invocation of
  \<^verbatim>\<open>backtrack\<close>, not after none.
\<close>

theorem solve_enters_search_counterexample:
  "enforce_node_consistency (init_domains crossing_cd) = Inr (init_domains crossing_cd) \<and>
   ac3 crossing_cd (init_domains crossing_cd) None = Inr (False, cd_pruned) \<and>
   solve crossing_cd (init_domains crossing_cd) = Inr (None, cd_pruned, [], 1) \<and>
   solve crossing_cd (init_domains crossing_cd) \<noteq> Inr (None, cd_pruned, [], 0)"
  by code_simp

section \<open>Consistent assignments\<close>

lemma getitem_word_of: "v \<in> set (map fst a) \<Longrightarrow> getitem a v = Inr (word_of a v)"
proof -
  assume "v \<in> set (map fst a)"
  then obtain w where "map_of a v = Some w"
    by (metis map_of_eq_None_iff not_None_eq set_map)
  then show ?thesis by (simp add: getitem_def word_of_def)
qed

lemma consistent_words_result:
  "set vs \<subseteq> set (map fst a) \<Longrightarrow>
   consistent_words a vs seen =
     Inr ((\<forall>v \<in> set vs. length (word_of a v) = var_length v) \<and>
          distinct (map (word_of a) vs) \<and> set (map (word_of a) vs) \<inter> set seen = {})"
proof (induction vs arbitrary: seen)
  case Nil
  then show ?case by simp
next
  case (Cons v vs)
  then have g: "getitem a v = Inr (word_of a v)" and rest: "set vs \<subseteq> set (map fst a)"
    by (auto intro: getitem_word_of simp del: set_map)
  show ?case
    unfolding consistent_words.simps g using Cons.IH [OF rest, of "word_of a v # seen"]
    by auto
qed

lemma word_of_entry: "distinct (map fst a) \<Longrightarrow> (v, w) \<in> set a \<Longrightarrow> word_of a v = w"
  by (simp add: word_of_def)

lemma map_word_of_keys: "distinct (map fst a) \<Longrightarrow> map (word_of a) (map fst a) = map snd a"
  by (auto simp: word_of_entry)

lemma distinct_snd_pairwise:
  assumes "distinct (map fst a)"
  shows "distinct (map snd a) \<longleftrightarrow> (\<forall>(x, wx) \<in> set a. \<forall>(y, wy) \<in> set a. x \<noteq> y \<longrightarrow> wx \<noteq> wy)"
proof -
  from assms have da: "distinct a" and inj: "inj_on fst (set a)"
    by (simp_all add: distinct_map)
  have "inj_on snd (set a) \<longleftrightarrow> (\<forall>(x, wx) \<in> set a. \<forall>(y, wy) \<in> set a. x \<noteq> y \<longrightarrow> wx \<noteq> wy)"
  proof
    assume s: "inj_on snd (set a)"
    show "\<forall>(x, wx) \<in> set a. \<forall>(y, wy) \<in> set a. x \<noteq> y \<longrightarrow> wx \<noteq> wy"
    proof (clarify)
      fix x y w assume "(x, w) \<in> set a" "(y, w) \<in> set a" "x \<noteq> y"
      with inj_onD [OF s, of "(x, w)" "(y, w)"] show False by simp
    qed
  next
    assume r: "\<forall>(x, wx) \<in> set a. \<forall>(y, wy) \<in> set a. x \<noteq> y \<longrightarrow> wx \<noteq> wy"
    show "inj_on snd (set a)"
    proof (rule inj_onI)
      fix p p' assume p: "p \<in> set a" "p' \<in> set a" "snd p = snd p'"
      with r have "fst p = fst p'" by (cases p; cases p') auto
      with p(3) show "p = p'" by (simp add: prod_eq_iff)
    qed
  qed
  with da show ?thesis by (simp add: distinct_map)
qed

lemma consistent_neighbors_result:
  assumes "map_of a v = Some wv"
    and "\<forall>n \<in> set ns. \<forall>wn p q. map_of a n = Some wn \<longrightarrow> overlaps cw (v, n) = Some (p, q) \<longrightarrow>
           p < length wv \<and> q < length wn"
  shows "consistent_neighbors cw a v ns =
         Inr (\<forall>n \<in> set ns. \<forall>wn p q. map_of a n = Some wn \<longrightarrow> overlaps cw (v, n) = Some (p, q) \<longrightarrow>
                wv ! p = wn ! q)"
  using assms(2)
proof (induction ns)
  case Nil
  then show ?case by simp
next
  case (Cons n ns)
  then have rest: "\<forall>n \<in> set ns. \<forall>wn p q. map_of a n = Some wn \<longrightarrow> overlaps cw (v, n) = Some (p, q) \<longrightarrow>
           p < length wv \<and> q < length wn" by simp
  note IH = Cons.IH [OF rest]
  show ?case
  proof (cases "map_of a n")
    case None
    with IH show ?thesis by (simp add: contains_def)
  next
    case (Some wn)
    show ?thesis
    proof (cases "overlaps cw (v, n)")
      case None
      with Some IH show ?thesis by (simp add: contains_def)
    next
      case ov: (Some pq)
      obtain p q where pq: "pq = (p, q)" by (cases pq)
      from Cons.prems Some ov pq have "p < length wv" "q < length wn" by auto
      with Some ov pq assms(1) IH show ?thesis
        by (auto simp: contains_def getitem_def str_index_def)
    qed
  qed
qed

lemma consistent_overlaps_result:
  assumes "set vs \<subseteq> set (map fst a)"
    and "\<forall>v \<in> set vs. \<forall>n \<in> set (neighbors cw v). \<forall>wv wn p q.
           map_of a v = Some wv \<longrightarrow> map_of a n = Some wn \<longrightarrow> overlaps cw (v, n) = Some (p, q) \<longrightarrow>
           p < length wv \<and> q < length wn"
  shows "consistent_overlaps cw a vs =
         Inr (\<forall>v \<in> set vs. \<forall>n \<in> set (neighbors cw v). \<forall>wv wn p q.
                map_of a v = Some wv \<longrightarrow> map_of a n = Some wn \<longrightarrow> overlaps cw (v, n) = Some (p, q) \<longrightarrow>
                wv ! p = wn ! q)"
  using assms
proof (induction vs)
  case Nil
  then show ?case by simp
next
  case (Cons v vs)
  from Cons.prems(1) obtain wv where wv: "map_of a v = Some wv"
    by (metis list.set_intros(1) map_of_eq_None_iff not_None_eq set_map subsetD)
  from Cons.prems have rest: "set vs \<subseteq> set (map fst a)"
    "\<forall>v \<in> set vs. \<forall>n \<in> set (neighbors cw v). \<forall>wv wn p q.
           map_of a v = Some wv \<longrightarrow> map_of a n = Some wn \<longrightarrow> overlaps cw (v, n) = Some (p, q) \<longrightarrow>
           p < length wv \<and> q < length wn" by simp_all
  from Cons.prems(2) wv have
    "\<forall>n \<in> set (neighbors cw v). \<forall>wn p q. map_of a n = Some wn \<longrightarrow> overlaps cw (v, n) = Some (p, q) \<longrightarrow>
           p < length wv \<and> q < length wn" by simp
  from consistent_neighbors_result [OF wv this] Cons.IH [OF rest] wv
  show ?case by auto
qed

lemma consistent_iff:
  assumes keys: "set (map fst a) \<subseteq> set (variables cw)" and dk: "distinct (map fst a)"
    and rng: "offsets_in_range cw"
  shows "consistent cw a = Inr (consistent_assignment cw a)"
proof -
  let ?len = "\<forall>(v, w) \<in> set a. length w = var_length v"
  let ?dis = "\<forall>(x, wx) \<in> set a. \<forall>(y, wy) \<in> set a. x \<noteq> y \<longrightarrow> wx \<noteq> wy"
  let ?ovl = "\<forall>(x, wx) \<in> set a. \<forall>(y, wy) \<in> set a. x \<noteq> y \<longrightarrow>
                (case overlaps cw (x, y) of None \<Rightarrow> True | Some (p, q) \<Rightarrow> wx ! p = wy ! q)"
  have entry: "\<And>v w. map_of a v = Some w \<longleftrightarrow> (v, w) \<in> set a"
    using dk by simp
  have "(\<forall>v \<in> set (map fst a). length (word_of a v) = var_length v) \<longleftrightarrow> ?len"
    using dk by (auto simp: word_of_entry)
  moreover have "distinct (map (word_of a) (map fst a)) \<longleftrightarrow> ?dis"
    using dk by (simp only: map_word_of_keys distinct_snd_pairwise)
  ultimately have first: "consistent_words a (map fst a) [] = Inr (?len \<and> ?dis)"
    using consistent_words_result [of "map fst a" a "[]"] by simp
  have ca: "consistent_assignment cw a \<longleftrightarrow> ?len \<and> ?dis \<and> ?ovl"
    unfolding consistent_assignment_def by fast
  show ?thesis
  proof (cases "?len \<and> ?dis")
    case False
    with ca have "\<not> consistent_assignment cw a" by blast
    moreover from first False have "consistent_words a (map fst a) [] = Inr False" by simp
    ultimately show ?thesis by (simp add: consistent_def)
  next
    case True
    then have len: ?len by simp
    have range: "\<forall>v \<in> set (map fst a). \<forall>n \<in> set (neighbors cw v). \<forall>wv wn p q.
           map_of a v = Some wv \<longrightarrow> map_of a n = Some wn \<longrightarrow> overlaps cw (v, n) = Some (p, q) \<longrightarrow>
           p < length wv \<and> q < length wn"
    proof (intro ballI allI impI)
      fix v n wv wn p q
      assume v: "v \<in> set (map fst a)" and n: "n \<in> set (neighbors cw v)"
        and wv: "map_of a v = Some wv" and wn: "map_of a n = Some wn"
        and ov: "overlaps cw (v, n) = Some (p, q)"
      from v keys have "v \<in> set (variables cw)" by auto
      moreover from n have "n \<in> set (variables cw)" by (simp add: neighbors_set)
      ultimately have "p < var_length v \<and> q < var_length n"
        using rng ov by (auto simp: offsets_in_range_def split: option.splits)
      moreover from len wv wn entry have "length wv = var_length v" "length wn = var_length n"
        by auto
      ultimately show "p < length wv \<and> q < length wn" by simp
    qed
    have "(\<forall>v \<in> set (map fst a). \<forall>n \<in> set (neighbors cw v). \<forall>wv wn p q.
                map_of a v = Some wv \<longrightarrow> map_of a n = Some wn \<longrightarrow> overlaps cw (v, n) = Some (p, q) \<longrightarrow>
                wv ! p = wn ! q) \<longleftrightarrow> ?ovl" (is "?L \<longleftrightarrow> _")
    proof
      assume L: ?L
      show ?ovl
      proof (clarify)
        fix x wx y wy
        assume x: "(x, wx) \<in> set a" and y: "(y, wy) \<in> set a" and ne: "x \<noteq> y"
        show "case overlaps cw (x, y) of None \<Rightarrow> True | Some (p, q) \<Rightarrow> wx ! p = wy ! q"
        proof (cases "overlaps cw (x, y)")
          case None
          then show ?thesis by simp
        next
          case (Some pq)
          obtain p q where pq: "pq = (p, q)" by (cases pq)
          from y keys have "y \<in> set (variables cw)" by force
          with ne Some have "y \<in> set (neighbors cw x)" by (simp add: neighbors_set)
          moreover from x have "x \<in> set (map fst a)" by force
          ultimately have "wx ! p = wy ! q"
            using L x y Some pq entry by blast
          with Some pq show ?thesis by simp
        qed
      qed
    next
      assume R: ?ovl
      show ?L
      proof (intro ballI allI impI)
        fix v n wv wn p q
        assume n: "n \<in> set (neighbors cw v)"
          and wv: "map_of a v = Some wv" and wn: "map_of a n = Some wn"
          and ov: "overlaps cw (v, n) = Some (p, q)"
        from n have "v \<noteq> n" by (auto simp: neighbors_set)
        with R wv wn ov entry show "wv ! p = wn ! q" by fastforce
      qed
    qed
    with consistent_overlaps_result [OF subset_refl range]
    have "consistent_overlaps cw a (map fst a) = Inr ?ovl" by simp
    moreover from first True have "consistent_words a (map fst a) [] = Inr True" by simp
    moreover from ca True have "consistent_assignment cw a \<longleftrightarrow> ?ovl" by blast
    ultimately show ?thesis by (simp add: consistent_def)
  qed
qed

section \<open>Correctness of the search\<close>

lemma update_append: "k \<notin> fst ` set a \<Longrightarrow> AList.update k v a = a @ [(k, v)]"
  by (induction a) auto

lemma consistent_assignment_subset:
  assumes "set a \<subseteq> set s" "consistent_assignment cw s"
  shows "consistent_assignment cw a"
  using assms unfolding consistent_assignment_def case_prod_beta subset_iff by blast

lemma search_state_complete:
  assumes wf: "well_formed cw d" and st: "search_state cw d a" and c: "assignment_complete d a"
  shows "is_solution cw d a"
proof -
  from c have "set (map fst d) \<subseteq> set (map fst a)"
    by (auto simp: assignment_complete_iff contains_iff)
  moreover from st wf have "set (map fst a) \<subseteq> set (map fst d)"
    by (simp add: search_state_def well_formed_def)
  ultimately have "set (map fst a) = set (map fst d)" by blast
  with st show ?thesis by (simp add: is_solution_def search_state_def)
qed

lemma search_state_extend:
  assumes wf: "well_formed cw d" and st: "search_state cw d a"
    and var: "var \<in> set (variables cw)" "\<not> contains a var" and w: "w \<in> set (words_of d var)"
  shows "consistent cw (AList.update var w a) = Inr (consistent_assignment cw (AList.update var w a))"
    and "consistent_assignment cw (AList.update var w a) \<Longrightarrow> search_state cw d (AList.update var w a)"
    and "is_solution cw d s \<Longrightarrow> extends (AList.update var w a) s \<Longrightarrow>
         consistent_assignment cw (AList.update var w a)"
proof -
  from var(2) have nk: "var \<notin> fst ` set a" by (simp add: contains_iff)
  then have upd: "AList.update var w a = a @ [(var, w)]" by (rule update_append)
  from st var(1) nk have keys: "set (map fst (AList.update var w a)) \<subseteq> set (variables cw)"
    and dk: "distinct (map fst (AList.update var w a))"
    by (auto simp: upd search_state_def)
  from wf have rng: "offsets_in_range cw" by (simp add: well_formed_def)
  from consistent_iff [OF keys dk rng]
  show "consistent cw (AList.update var w a) = Inr (consistent_assignment cw (AList.update var w a))" .
  show "search_state cw d (AList.update var w a)" if "consistent_assignment cw (AList.update var w a)"
    using that keys dk st w by (auto simp: search_state_def upd)
  show "consistent_assignment cw (AList.update var w a)"
    if "is_solution cw d s" "extends (AList.update var w a) s"
    using that by (auto simp: is_solution_def extends_def intro: consistent_assignment_subset)
qed

lemma solution_extends_choice:
  assumes sol: "is_solution cw d s" and ext: "extends a s"
    and var: "var \<in> set (map fst d)" "\<not> contains a var"
  shows "\<exists>w \<in> set (words_of d var). extends (AList.update var w a) s"
proof -
  from sol var(1) have "var \<in> fst ` set s" by (simp add: is_solution_def)
  then obtain w where w: "(var, w) \<in> set s" by force
  with sol have "w \<in> set (words_of d var)" by (auto simp: is_solution_def)
  moreover from var(2) have "AList.update var w a = a @ [(var, w)]"
    by (intro update_append) (simp add: contains_iff)
  with ext w have "extends (AList.update var w a) s" by (simp add: extends_def)
  ultimately show ?thesis by blast
qed

lemma backtrack_correct:
  "well_formed cw d \<Longrightarrow> node_consistent d \<Longrightarrow> search_state cw d a \<Longrightarrow>
     \<exists>r n. backtrack cw d a = Inr (r, d, (case r of None \<Rightarrow> a | Some s \<Rightarrow> s), n) \<and>
       (case r of None \<Rightarrow> (\<forall>s. \<not> (is_solution cw d s \<and> extends a s))
                | Some s \<Rightarrow> is_solution cw d s \<and> extends a s)"
  "well_formed cw d \<Longrightarrow> node_consistent d \<Longrightarrow> search_state cw d a \<Longrightarrow>
   var \<in> set (variables cw) \<Longrightarrow> \<not> contains a var \<Longrightarrow> set ws \<subseteq> set (words_of d var) \<Longrightarrow>
     \<exists>r n. backtrack_loop cw d var ws a = Inr (r, d, (case r of None \<Rightarrow> a | Some s \<Rightarrow> s), n) \<and>
       (case r of None \<Rightarrow> (\<forall>w \<in> set ws. \<forall>s. \<not> (is_solution cw d s \<and> extends (AList.update var w a) s))
                | Some s \<Rightarrow> is_solution cw d s \<and> extends a s)"
proof (induction cw d a and cw d var ws a rule: backtrack_backtrack_loop.induct)
  case (1 cw d a)
  note wf = "1.prems"(1) and nc = "1.prems"(2) and st = "1.prems"(3)
  show ?case
  proof (cases "assignment_complete d a")
    case True
    from search_state_complete [OF wf st True] have "is_solution cw d a" .
    then have "backtrack cw d a = Inr (Some a, d, (case Some a of None \<Rightarrow> a | Some s \<Rightarrow> s), 1) \<and>
       (case Some a of None \<Rightarrow> (\<forall>s. \<not> (is_solution cw d s \<and> extends a s))
                | Some s \<Rightarrow> is_solution cw d s \<and> extends a s)"
      using True by (simp add: backtrack.simps [of cw d a] extends_def)
    then show ?thesis by blast
  next
    case False
    then obtain u0 where "u0 \<in> set (map fst d)" "\<not> contains a u0"
      by (auto simp: assignment_complete_iff)
    from select_unassigned_variable_min [OF this, of cw] obtain v where
      sel: "select_unassigned_variable cw d a = Inr v" and vk: "v \<in> set (map fst d)"
      and vn: "\<not> contains a v" by blast
    from wf vk have vv: "v \<in> set (variables cw)" by (simp add: well_formed_def)
    from wf have "map fst d = variables cw" "offsets_in_range cw" by (simp_all add: well_formed_def)
    from order_domain_values_sort_key [OF this nc vv, of a]
    have ord: "order_domain_values cw d v a =
         Inr (sort_key (elimination_count cw d a v) (words_of d v))" .
    let ?ws = "sort_key (elimination_count cw d a v) (words_of d v)"
    have sub: "set ?ws \<subseteq> set (words_of d v)" by simp
    from "1.IH" [OF False sel ord wf nc st vv vn sub] obtain r n where
      lp: "backtrack_loop cw d v ?ws a = Inr (r, d, (case r of None \<Rightarrow> a | Some s \<Rightarrow> s), n)"
      and res: "case r of None \<Rightarrow> (\<forall>w \<in> set ?ws. \<forall>s. \<not> (is_solution cw d s \<and> extends (AList.update v w a) s))
                | Some s \<Rightarrow> is_solution cw d s \<and> extends a s" by blast
    have bt: "backtrack cw d a = Inr (r, d, (case r of None \<Rightarrow> a | Some s \<Rightarrow> s), n + 1)"
      using False sel ord lp by (simp add: backtrack.simps [of cw d a])
    have "case r of None \<Rightarrow> (\<forall>s. \<not> (is_solution cw d s \<and> extends a s))
                | Some s \<Rightarrow> is_solution cw d s \<and> extends a s"
    proof (cases r)
      case None
      have "\<not> (is_solution cw d s \<and> extends a s)" for s
      proof
        assume "is_solution cw d s \<and> extends a s"
        then have "\<exists>w \<in> set (words_of d v). extends (AList.update v w a) s"
          and "is_solution cw d s"
          using solution_extends_choice [of cw d s a v] vk vn by simp_all
        with res None show False by auto
      qed
      with None show ?thesis by simp
    next
      case (Some s)
      with res show ?thesis by simp
    qed
    with bt show ?thesis by blast
  qed
next
  case (2 cw d current_var a)
  have "backtrack_loop cw d current_var [] a = Inr (None, d, (case None of None \<Rightarrow> a | Some s \<Rightarrow> s), 0) \<and>
       (case None :: assignment option of None \<Rightarrow> (\<forall>w \<in> set []. \<forall>s. \<not> (is_solution cw d s \<and> extends (AList.update current_var w a) s))
                | Some s \<Rightarrow> is_solution cw d s \<and> extends a s)"
    by simp
  then show ?case by blast
next
  case (3 cw d current_var word ws a)
  note wf = "3.prems"(1) and nc = "3.prems"(2) and st = "3.prems"(3)
    and var = "3.prems"(4,5)
  from "3.prems"(6) have w: "word \<in> set (words_of d current_var)"
    and sub: "set ws \<subseteq> set (words_of d current_var)" by simp_all
  let ?a1 = "AList.update current_var word a"
  note ext = search_state_extend [OF wf st var w]
  from var(2) have nk: "current_var \<notin> fst ` set a" by (simp add: contains_iff)
  then have del: "AList.delete current_var a = a" by simp
  have pop: "dict_pop ?a1 current_var = Inr a" by (simp add: dict_pop_update del)
  show ?case
  proof (cases "consistent_assignment cw ?a1")
    case False
    with ext(1) have c: "consistent cw ?a1 = Inr False" by simp
    from "3.IH"(3) [OF c _ pop wf nc st var sub] obtain r n where
      lp: "backtrack_loop cw d current_var ws a = Inr (r, d, (case r of None \<Rightarrow> a | Some s \<Rightarrow> s), n)"
      and res: "case r of None \<Rightarrow> (\<forall>w \<in> set ws. \<forall>s. \<not> (is_solution cw d s \<and> extends (AList.update current_var w a) s))
                | Some s \<Rightarrow> is_solution cw d s \<and> extends a s" by auto
    have run: "backtrack_loop cw d current_var (word # ws) a =
          Inr (r, d, (case r of None \<Rightarrow> a | Some s \<Rightarrow> s), n)"
      using c pop lp by simp
    have now: "\<not> (is_solution cw d s \<and> extends ?a1 s)" for s
      using ext(3) [of s] False by blast
    have "case r of None \<Rightarrow> (\<forall>w \<in> set (word # ws). \<forall>s. \<not> (is_solution cw d s \<and> extends (AList.update current_var w a) s))
                | Some s \<Rightarrow> is_solution cw d s \<and> extends a s"
      using res now by (cases r) auto
    with run show ?thesis by blast
  next
    case True
    with ext(1) have c: "consistent cw ?a1 = Inr True" by simp
    from ext(2) [OF True] have st1: "search_state cw d ?a1" .
    from "3.IH"(1) [OF c _ wf nc st1] obtain r1 n1 where
      bt: "backtrack cw d ?a1 = Inr (r1, d, (case r1 of None \<Rightarrow> ?a1 | Some s \<Rightarrow> s), n1)"
      and res1: "case r1 of None \<Rightarrow> (\<forall>s. \<not> (is_solution cw d s \<and> extends ?a1 s))
                | Some s \<Rightarrow> is_solution cw d s \<and> extends ?a1 s" by auto
    show ?thesis
    proof (cases r1)
      case (Some s)
      with bt c have run: "backtrack_loop cw d current_var (word # ws) a = Inr (Some s, d, s, n1)"
        by simp
      from res1 Some have "is_solution cw d s" "extends ?a1 s" by simp_all
      moreover from this(2) nk have "extends a s"
        by (simp add: extends_def update_append)
      ultimately have "backtrack_loop cw d current_var (word # ws) a =
          Inr (Some s, d, (case Some s of None \<Rightarrow> a | Some s \<Rightarrow> s), n1) \<and>
          (case Some s of None \<Rightarrow> (\<forall>w \<in> set (word # ws). \<forall>s. \<not> (is_solution cw d s \<and> extends (AList.update current_var w a) s))
                | Some s \<Rightarrow> is_solution cw d s \<and> extends a s)"
        using run by simp
      then show ?thesis by blast
    next
      case None
      with bt have bt': "backtrack cw d ?a1 = Inr (None, d, ?a1, n1)" by simp
      from "3.IH"(2) [OF c _ bt' refl refl refl _ pop wf nc st var sub] obtain r n where
        lp: "backtrack_loop cw d current_var ws a = Inr (r, d, (case r of None \<Rightarrow> a | Some s \<Rightarrow> s), n)"
        and res: "case r of None \<Rightarrow> (\<forall>w \<in> set ws. \<forall>s. \<not> (is_solution cw d s \<and> extends (AList.update current_var w a) s))
                | Some s \<Rightarrow> is_solution cw d s \<and> extends a s" by auto
      have run: "backtrack_loop cw d current_var (word # ws) a =
          Inr (r, d, (case r of None \<Rightarrow> a | Some s \<Rightarrow> s), n1 + n)"
        using c bt' pop lp by simp
      from res1 None have now: "\<forall>s. \<not> (is_solution cw d s \<and> extends ?a1 s)" by simp
      have "case r of None \<Rightarrow> (\<forall>w \<in> set (word # ws). \<forall>s. \<not> (is_solution cw d s \<and> extends (AList.update current_var w a) s))
                | Some s \<Rightarrow> is_solution cw d s \<and> extends a s"
        using res now by (cases r) auto
      with run show ?thesis by blast
    qed
  qed
qed

section \<open>Propagation keeps the solutions; \<^verbatim>\<open>solve\<close> is sound and complete\<close>

lemma solution_word_length:
  assumes "is_solution cw d s" "(v, w) \<in> set s"
  shows "length w = var_length v"
proof -
  from assms(1) have "\<forall>p \<in> set s. length (snd p) = var_length (fst p)"
    by (simp add: is_solution_def consistent_assignment_def case_prod_beta)
  from bspec [OF this assms(2)] show ?thesis by simp
qed

lemma solution_word_in_domain:
  assumes "is_solution cw d s" "(v, w) \<in> set s"
  shows "w \<in> set (words_of d v)"
proof -
  from assms(1) have "\<forall>p \<in> set s. snd p \<in> set (words_of d (fst p))"
    by (simp add: is_solution_def case_prod_beta)
  from bspec [OF this assms(2)] show ?thesis by simp
qed

lemma solution_has_word:
  assumes "is_solution cw d s" "v \<in> set (map fst d)"
  shows "\<exists>w. (v, w) \<in> set s"
proof -
  from assms have "v \<in> fst ` set s" by (simp add: is_solution_def)
  then obtain p where p: "p \<in> set s" "fst p = v" by blast
  from p(2) have "p = (v, snd p)" by (simp add: prod_eq_iff)
  with p(1) have "(v, snd p) \<in> set s" by simp
  then show ?thesis by blast
qed

lemma solution_pair:
  assumes "is_solution cw d s" "(x, wx) \<in> set s" "(y, wy) \<in> set s" "x \<noteq> y"
    and "overlaps cw (x, y) = Some (i, j)"
  shows "wx \<noteq> wy \<and> wx ! i = wy ! j"
proof -
  from assms(1) have "\<forall>p \<in> set s. \<forall>p' \<in> set s. fst p \<noteq> fst p' \<longrightarrow>
      snd p \<noteq> snd p' \<and> (case overlaps cw (fst p, fst p') of None \<Rightarrow> True
         | Some (i, j) \<Rightarrow> snd p ! i = snd p' ! j)"
    by (simp add: is_solution_def consistent_assignment_def case_prod_beta)
  from bspec [OF bspec [OF this assms(2)] assms(3)] assms(4,5) show ?thesis by simp
qed

lemma is_solution_shrinks:
  assumes "shrinks d d'" "is_solution cw d' s"
  shows "is_solution cw d s"
proof -
  from assms(1) have keys: "map fst d' = map fst d"
    and sub: "\<And>v. v \<in> set (map fst d) \<Longrightarrow> set (words_of d' v) \<subseteq> set (words_of d v)"
    by (auto simp: shrinks_def)
  have "w \<in> set (words_of d v)" if "(v, w) \<in> set s" for v w
  proof -
    from that assms(2) have "w \<in> set (words_of d' v)"
      by (rule solution_word_in_domain [rotated])
    from that assms(2) have "v \<in> set (map fst d')"
      unfolding is_solution_def by (metis fst_conv image_eqI set_map)
    with sub [of v] keys \<open>w \<in> set (words_of d' v)\<close> show ?thesis by auto
  qed
  with assms(2) keys show ?thesis by (simp add: is_solution_def case_prod_beta)
qed

lemma is_solution_same_keys:
  assumes "is_solution cw d s" "map fst d' = map fst d"
    and "\<And>v w. (v, w) \<in> set s \<Longrightarrow> w \<in> set (words_of d' v)"
  shows "is_solution cw d' s"
  using assms unfolding is_solution_def by auto

lemma enforce_keeps_solution:
  assumes "is_solution cw d s" "enforce_node_consistency d = Inr d1"
  shows "is_solution cw d1 s"
proof -
  from enforce_node_consistency_result [of d] assms(2) have
    keys: "map fst d1 = map fst d" and
    w: "\<And>v. words_of d1 v = [w \<leftarrow> words_of d v. length w = var_length v]" by auto
  show ?thesis
  proof (rule is_solution_same_keys [OF assms(1) keys])
    fix v w assume "(v, w) \<in> set s"
    with assms(1) show "w \<in> set (words_of d1 v)"
      by (simp add: w solution_word_length solution_word_in_domain)
  qed
qed

lemma revise_inner_not_False:
  "wy \<in> set dy \<Longrightarrow> wx ! i = wy ! j \<Longrightarrow> wx \<noteq> wy \<Longrightarrow> i < length wx \<Longrightarrow> j < length wy \<Longrightarrow>
   revise_inner i j wx dy \<noteq> Inr False"
  by (induction dy) (auto simp: str_index_def)

lemma revise_keeps_solution:
  assumes sol: "is_solution cw d s" and rng: "offsets_in_range cw"
    and keys: "map fst d = variables cw"
    and xy: "x \<in> set (variables cw)" "y \<in> set (variables cw)" "x \<noteq> y"
    and rv: "revise cw d x y = Inr (b, d')"
  shows "is_solution cw d' s"
proof -
  from revise_cases [OF rv] consider "d' = d"
    | i j dx where "overlaps cw (x, y) = Some (i, j)" "map_of d x = Some dx"
        "d' = AList.update x [wx \<leftarrow> dx. revise_inner i j wx (words_of d y) \<noteq> Inr False] d"
    by blast
  then show ?thesis
  proof cases
    case 1
    with sol show ?thesis by simp
  next
    case (2 i j dx)
    from 2(2) have wx: "words_of d x = dx" by (simp add: words_of_def)
    from rng xy 2(1) have ij: "i < var_length x" "j < var_length y"
      by (auto simp: offsets_in_range_def split: option.splits)
    show ?thesis
    proof (rule is_solution_same_keys [OF sol])
      show "map fst d' = map fst d" unfolding 2(3) using 2(2) by (rule keys_update_present)
    next
      fix v w assume vw: "(v, w) \<in> set s"
      show "w \<in> set (words_of d' v)"
      proof (cases "v = x")
        case False
        with vw sol show ?thesis by (simp add: 2(3) words_of_update solution_word_in_domain)
      next
        case True
        from solution_has_word [OF sol, of y] xy(2) keys obtain wy where wy: "(y, wy) \<in> set s"
          by auto
        from solution_pair [OF sol _ wy xy(3) 2(1), of w] vw True
        have "w \<noteq> wy" "w ! i = wy ! j" by simp_all
        moreover from solution_word_length [OF sol] vw wy True ij
        have "i < length w" "j < length wy" by auto
        moreover from solution_word_in_domain [OF sol wy] have "wy \<in> set (words_of d y)" .
        ultimately have "revise_inner i j w (words_of d y) \<noteq> Inr False"
          by (intro revise_inner_not_False [of wy]) auto
        moreover from solution_word_in_domain [OF sol vw] True wx have "w \<in> set dx" by simp
        ultimately show ?thesis by (simp add: True 2(3) words_of_update)
      qed
    qed
  qed
qed

lemma revise_total:
  assumes keys: "map fst d = variables cw" and rng: "offsets_in_range cw"
    and nc: "node_consistent d"
    and xy: "x \<in> set (variables cw)" "y \<in> set (variables cw)"
  shows "\<exists>b d'. revise cw d x y = Inr (b, d')"
proof (cases "overlaps cw (x, y)")
  case None
  then have "revise cw d x y = Inr (False, d)" by (simp add: revise_def)
  then show ?thesis by blast
next
  case (Some ij)
  obtain i j where ij: "ij = (i, j)" by (cases ij)
  from xy keys have gx: "getitem d x = Inr (words_of d x)" and gy: "getitem d y = Inr (words_of d y)"
    by (auto intro!: getitem_key)
  then have mx: "map_of d x = Some (words_of d x)" and my: "map_of d y = Some (words_of d y)"
    by (simp_all add: getitem_Inr)
  from rng xy Some ij have r: "i < var_length x" "j < var_length y"
    by (auto simp: offsets_in_range_def split: option.splits)
  from nc keys xy r have lx: "\<forall>wx \<in> set (words_of d x). i < length wx"
    and ly: "\<forall>wy \<in> set (words_of d y). j < length wy"
    by (auto simp: node_consistent_def)
  from revise_supported [OF _ mx my lx ly] Some ij show ?thesis by blast
qed

lemma well_formed_shrinks: "well_formed cw d \<Longrightarrow> shrinks d d' \<Longrightarrow> well_formed cw d'"
  by (simp add: well_formed_def shrinks_def)

lemma ac3_loop_correct:
  "well_formed cw d \<Longrightarrow> node_consistent d \<Longrightarrow>
   \<forall>(x, y) \<in> set arcs. x \<in> set (variables cw) \<and> y \<in> set (variables cw) \<and> x \<noteq> y \<Longrightarrow>
   \<exists>b d'. ac3_loop cw d arcs = Inr (b, d') \<and> (\<forall>s. is_solution cw d s \<longrightarrow> is_solution cw d' s)"
proof (induction cw d arcs rule: ac3_loop.induct)
  case (1 cw d)
  have "ac3_loop cw d [] = Inr (True, d)" by simp
  then show ?case by blast
next
  case (2 cw d current_arc arcs)
  note wf = "2.prems"(1) and nc = "2.prems"(2)
  obtain x y where arc: "current_arc = (x, y)" by (cases current_arc)
  from "2.prems"(3) arc have xy: "x \<in> set (variables cw)" "y \<in> set (variables cw)" "x \<noteq> y"
    and rest: "\<forall>(x, y) \<in> set arcs. x \<in> set (variables cw) \<and> y \<in> set (variables cw) \<and> x \<noteq> y"
    by auto
  from wf have keys: "map fst d = variables cw" and rng: "offsets_in_range cw"
    by (simp_all add: well_formed_def)
  from revise_total [OF keys rng nc xy(1,2)] obtain revised d1 where
    rv: "revise cw d x y = Inr (revised, d1)" by blast
  then have rv': "revise cw d (fst current_arc) (snd current_arc) = Inr (revised, d1)"
    by (simp add: arc)
  note sh = revise_shrinks [OF rv]
  from well_formed_shrinks [OF wf sh] have wf1: "well_formed cw d1" .
  from shrinks_node_consistent [OF sh nc] have nc1: "node_consistent d1" .
  have keep: "is_solution cw d1 s" if "is_solution cw d s" for s
    using revise_keeps_solution [OF that rng keys xy rv] .
  show ?case
  proof (cases revised)
    case False
    from "2.IH"(2) [OF rv' refl False wf1 nc1 rest] obtain b d' where
      run: "ac3_loop cw d1 arcs = Inr (b, d')"
      and sol: "\<forall>s. is_solution cw d1 s \<longrightarrow> is_solution cw d' s" by blast
    from run rv' False have "ac3_loop cw d (current_arc # arcs) = Inr (b, d')" by simp
    with sol keep show ?thesis by blast
  next
    case True
    from wf1 xy(1) have "x \<in> set (map fst d1)" by (simp add: well_formed_def)
    from getitem_key [OF this] arc
    have dx: "getitem d1 (fst current_arc) = Inr (words_of d1 x)" by simp
    show ?thesis
    proof (cases "length (words_of d1 x) = 0")
      case empty: True
      with rv' True dx have "ac3_loop cw d (current_arc # arcs) = Inr (False, d1)" by simp
      with keep show ?thesis by blast
    next
      case False
      let ?more = "arcs @ map (\<lambda>neighbor. (neighbor, fst current_arc))
             [neighbor \<leftarrow> neighbors cw (fst current_arc). neighbor \<noteq> snd current_arc]"
      have "\<forall>(x, y) \<in> set ?more. x \<in> set (variables cw) \<and> y \<in> set (variables cw) \<and> x \<noteq> y"
        using rest xy(1) arc by (auto simp: neighbors_set)
      from "2.IH"(1) [OF rv' refl True dx False wf1 nc1 this] obtain b d' where
        run: "ac3_loop cw d1 ?more = Inr (b, d')"
        and sol: "\<forall>s. is_solution cw d1 s \<longrightarrow> is_solution cw d' s" by blast
      from run rv' True dx False have "ac3_loop cw d (current_arc # arcs) = Inr (b, d')" by simp
      with sol keep show ?thesis by blast
    qed
  qed
qed

lemma combinations2_distinct:
  "distinct xs \<Longrightarrow> (x, y) \<in> set (combinations2 xs) \<Longrightarrow> x \<noteq> y"
  by (induction xs) (auto dest: in_combinations2)

lemma ac3_correct:
  assumes wf: "well_formed cw d" and nc: "node_consistent d"
  shows "\<exists>b d'. ac3 cw d None = Inr (b, d') \<and> (\<forall>s. is_solution cw d s \<longrightarrow> is_solution cw d' s)"
proof -
  from wf have keys: "map fst d = variables cw" and dist: "distinct (variables cw)"
    by (simp_all add: well_formed_def)
  have "\<forall>(x, y) \<in> set (combinations2 (map fst d)).
          x \<in> set (variables cw) \<and> y \<in> set (variables cw) \<and> x \<noteq> y"
    unfolding keys using dist by (auto dest: in_combinations2 combinations2_distinct)
  from ac3_loop_correct [OF wf nc this] show ?thesis by (simp add: ac3_def)
qed

lemma search_state_empty: "search_state cw d []"
  by (simp add: search_state_def consistent_assignment_def)

lemma solve_correct:
  assumes wf: "well_formed cw d"
  shows "\<exists>r d' n. solve cw d = Inr (r, d', (case r of None \<Rightarrow> [] | Some s \<Rightarrow> s), n) \<and>
           (case r of None \<Rightarrow> (\<forall>s. \<not> is_solution cw d s) | Some s \<Rightarrow> is_solution cw d s)"
proof -
  from enforce_node_consistency_result [of d] obtain d1 where
    e: "enforce_node_consistency d = Inr d1" and k1: "map fst d1 = map fst d"
    and w1: "\<forall>v. words_of d1 v = [w \<leftarrow> words_of d v. length w = var_length v]" by blast
  from k1 w1 have sh1: "shrinks d d1" by (simp add: shrinks_def)
  from w1 have nc1: "node_consistent d1" by (simp add: node_consistent_def)
  from well_formed_shrinks [OF wf sh1] have wf1: "well_formed cw d1" .
  from ac3_correct [OF wf1 nc1] obtain b d2 where
    a: "ac3 cw d1 None = Inr (b, d2)"
    and keep: "\<forall>s. is_solution cw d1 s \<longrightarrow> is_solution cw d2 s" by blast
  note sh2 = ac3_shrinks [OF a]
  from well_formed_shrinks [OF wf1 sh2] have wf2: "well_formed cw d2" .
  from shrinks_node_consistent [OF sh2 nc1] have nc2: "node_consistent d2" .
  from backtrack_correct(1) [OF wf2 nc2 search_state_empty] obtain r n where
    bt: "backtrack cw d2 [] = Inr (r, d2, (case r of None \<Rightarrow> [] | Some s \<Rightarrow> s), n)"
    and res: "case r of None \<Rightarrow> (\<forall>s. \<not> (is_solution cw d2 s \<and> extends [] s))
                | Some s \<Rightarrow> is_solution cw d2 s \<and> extends [] s" by blast
  from e a bt have run: "solve cw d = Inr (r, d2, (case r of None \<Rightarrow> [] | Some s \<Rightarrow> s), n)"
    by (simp add: solve_def)
  have "case r of None \<Rightarrow> (\<forall>s. \<not> is_solution cw d s) | Some s \<Rightarrow> is_solution cw d s"
  proof (cases r)
    case None
    have "\<not> is_solution cw d s" for s
    proof
      assume "is_solution cw d s"
      then have "is_solution cw d1 s" using e by (rule enforce_keeps_solution)
      with keep have "is_solution cw d2 s" by blast
      with res None show False by (simp add: extends_def)
    qed
    with None show ?thesis by simp
  next
    case (Some s)
    with res have "is_solution cw d2 s" by simp
    then have "is_solution cw d s"
      by (intro is_solution_shrinks [OF shrinks_trans [OF sh1 sh2]])
    with Some show ?thesis by simp
  qed
  with run show ?thesis by blast
qed

lemma is_solution_complete: "is_solution cw d s \<Longrightarrow> assignment_complete d s"
  by (simp add: is_solution_def assignment_complete_iff contains_iff)

text \<open>
  C1: for a crossword with distinct slots and offsets within the slots, and a
  store over its slots, if some complete consistent assignment with words from
  the store exists when \<^verbatim>\<open>solve\<close> is called, \<^verbatim>\<open>solve\<close> does not raise and
  returns such an assignment; so it does not return \<open>None\<close> then.
\<close>

theorem solve_complete:
  assumes "well_formed cw d" and "is_solution cw d s"
  shows "(\<exists>s' d' n. solve cw d = Inr (Some s', d', s', n) \<and> is_solution cw d s') \<and>
         (\<forall>d' a' n. solve cw d \<noteq> Inr (None, d', a', n))"
proof -
  from solve_correct [OF assms(1)] obtain r d' n where
    run: "solve cw d = Inr (r, d', (case r of None \<Rightarrow> [] | Some s \<Rightarrow> s), n)"
    and res: "case r of None \<Rightarrow> (\<forall>s. \<not> is_solution cw d s) | Some s \<Rightarrow> is_solution cw d s"
    by blast
  from res assms(2) obtain s' where r: "r = Some s'" and sol: "is_solution cw d s'"
    by (cases r) auto
  from run r have "solve cw d = Inr (Some s', d', s', n)" by simp
  with sol show ?thesis by auto
qed

theorem solve_complete_witness:
  "well_formed crossing (init_domains crossing) \<and>
   is_solution crossing (init_domains crossing) [(slot_down, ''CAT''), (slot_across, ''ACT'')] \<and>
   solve crossing (init_domains crossing) = Inr (Some crossing_solution, crossing_pruned, crossing_solution, 3) \<and>
   is_solution crossing (init_domains crossing) crossing_solution"
proof -
  have w: "well_formed crossing (init_domains crossing)" by code_simp
  have s: "is_solution crossing (init_domains crossing) [(slot_down, ''CAT''), (slot_across, ''ACT'')]"
    by code_simp
  have run: "solve crossing (init_domains crossing) =
      Inr (Some crossing_solution, crossing_pruned, crossing_solution, 3)" by code_simp
  from solve_complete [OF w s] run have "is_solution crossing (init_domains crossing) crossing_solution"
    by auto
  with w s run show ?thesis by simp
qed

text \<open>
  C2: for a crossword with distinct slots and offsets within the slots, and a
  store over its slots, an assignment returned by \<^verbatim>\<open>solve\<close> is the final
  content of the assignment dictionary, gives every slot a word, and is
  consistent: every word has its slot's length, different slots have different
  words, and crossing slots agree at the overlap offsets. The same holds for
  \<^verbatim>\<open>backtrack\<close> started from the empty assignment in a node-consistent store.
\<close>

theorem solve_sound:
  assumes "well_formed cw d"
  shows "(\<forall>s d' a' n. solve cw d = Inr (Some s, d', a', n) \<longrightarrow>
            a' = s \<and> assignment_complete d s \<and> consistent_assignment cw s \<and> is_solution cw d s) \<and>
         (node_consistent d \<longrightarrow>
           (\<forall>s d' a' n. backtrack cw d [] = Inr (Some s, d', a', n) \<longrightarrow>
              a' = s \<and> assignment_complete d s \<and> consistent_assignment cw s \<and> is_solution cw d s))"
proof (intro conjI allI impI)
  fix s d' a' n
  assume run: "solve cw d = Inr (Some s, d', a', n)"
  from solve_correct [OF assms] obtain r d'' m where
    "solve cw d = Inr (r, d'', (case r of None \<Rightarrow> [] | Some s \<Rightarrow> s), m)"
    and "case r of None \<Rightarrow> (\<forall>s. \<not> is_solution cw d s) | Some s \<Rightarrow> is_solution cw d s"
    by blast
  with run have "a' = s" and sol: "is_solution cw d s" by auto
  then show "a' = s" "is_solution cw d s" by simp_all
  from sol show "assignment_complete d s" by (rule is_solution_complete)
  from sol show "consistent_assignment cw s" by (simp add: is_solution_def)
next
  fix s d' a' n
  assume nc: "node_consistent d" and run: "backtrack cw d [] = Inr (Some s, d', a', n)"
  from backtrack_correct(1) [OF assms nc search_state_empty] obtain r m where
    "backtrack cw d [] = Inr (r, d, (case r of None \<Rightarrow> [] | Some s \<Rightarrow> s), m)"
    and "case r of None \<Rightarrow> (\<forall>s. \<not> (is_solution cw d s \<and> extends [] s))
                | Some s \<Rightarrow> is_solution cw d s \<and> extends [] s" by blast
  with run have "a' = s" and sol: "is_solution cw d s" by auto
  then show "a' = s" "is_solution cw d s" by simp_all
  from sol show "assignment_complete d s" by (rule is_solution_complete)
  from sol show "consistent_assignment cw s" by (simp add: is_solution_def)
qed

theorem solve_sound_witness:
  "well_formed crossing (init_domains crossing) \<and>
   solve crossing (init_domains crossing) = Inr (Some crossing_solution, crossing_pruned, crossing_solution, 3) \<and>
   assignment_complete (init_domains crossing) crossing_solution \<and>
   consistent_assignment crossing crossing_solution \<and>
   well_formed crossing crossing_pruned \<and> node_consistent crossing_pruned \<and>
   backtrack crossing crossing_pruned [] = Inr (Some crossing_solution, crossing_pruned, crossing_solution, 3) \<and>
   assignment_complete crossing_pruned crossing_solution"
proof -
  have w: "well_formed crossing (init_domains crossing)" by code_simp
  have run: "solve crossing (init_domains crossing) =
      Inr (Some crossing_solution, crossing_pruned, crossing_solution, 3)" by code_simp
  have w2: "well_formed crossing crossing_pruned" by code_simp
  have nc: "node_consistent crossing_pruned" by code_simp
  have bt: "backtrack crossing crossing_pruned [] =
      Inr (Some crossing_solution, crossing_pruned, crossing_solution, 3)" by code_simp
  from solve_sound [OF w] run
  have "assignment_complete (init_domains crossing) crossing_solution"
    "consistent_assignment crossing crossing_solution" by blast+
  moreover from solve_sound [OF w2] nc bt
  have "assignment_complete crossing_pruned crossing_solution" by blast
  ultimately show ?thesis using w run w2 nc bt by simp
qed

end
